theory Spec2Isabelle
  imports Main "HOL-Library.Word" "HOL-Library.AList"
begin

section \<open>Data model\<close>

text \<open>
  The embedding follows \<^verbatim>\<open>src/lib/axfr.js\<close>: the plugin (the transfer orchestrator,
  second \<^verbatim>\<open>Plugin\<close> class of the file) and the client library (\<^verbatim>\<open>AXFRClient\<close>,
  \<^verbatim>\<open>AXFRQuery\<close>, \<^verbatim>\<open>AXFRValidator\<close>, \<^verbatim>\<open>MessageWriter\<close>).
  Wire encoding, record types and the signature check belong to the \<^verbatim>\<open>bns\<close> library;
  what the code reads of them is kept as fields or taken as parameters.
\<close>

type_synonym byte = "8 word"

text \<open>Record type codes, \<^verbatim>\<open>wire.types\<close> of bns (the DNS type numbers).\<close>

abbreviation (input) types_A :: nat where "types_A \<equiv> 1"
abbreviation (input) types_NS :: nat where "types_NS \<equiv> 2"
abbreviation (input) types_SOA :: nat where "types_SOA \<equiv> 6"
abbreviation (input) types_AAAA :: nat where "types_AAAA \<equiv> 28"
abbreviation (input) types_RRSIG :: nat where "types_RRSIG \<equiv> 46"
abbreviation (input) types_NSEC :: nat where "types_NSEC \<equiv> 47"
abbreviation (input) types_NSEC3 :: nat where "types_NSEC3 \<equiv> 50"

abbreviation (input) MAX_MESSAGE_SIZE :: nat where "MAX_MESSAGE_SIZE \<equiv> 65535"

text \<open>
  The fields of \<^verbatim>\<open>rr.data\<close> the code reads: \<^verbatim>\<open>ns\<close> of an NS record, \<^verbatim>\<open>nextDomain\<close> and
  \<^verbatim>\<open>getTypes()\<close> of an NSEC record. \<^verbatim>\<open>getSize\<close> is the value of \<^verbatim>\<open>rr.getSize(null)\<close>,
  the record's wire size without name compression.
\<close>

record rdata =
  ns :: string
  nextDomain :: string
  getTypes :: "nat list"

record rr =
  name :: string
  rtype :: nat
  data :: rdata
  getSize :: nat

record question =
  qname :: string
  qtype :: nat
  qsize :: nat

text \<open>
  A \<^verbatim>\<open>Message\<close>: the transaction id, the question section and the answer section (the
  other sections stay empty in every message of this program).
\<close>

record message =
  id_m :: nat
  question :: "question list"
  answer :: "rr list"

record owner =
  delegation :: bool
  rrs :: "rr list"

text \<open>
  A JavaScript \<^verbatim>\<open>Map\<close> keeps its keys in insertion order: an association list with
  \<^const>\<open>map_of\<close> for \<^verbatim>\<open>get\<close> and \<^const>\<open>AList.update\<close> for \<^verbatim>\<open>set\<close>. A \<^verbatim>\<open>Set\<close> is a
  list in insertion order.
\<close>

definition Set_add :: "'a list \<Rightarrow> 'a \<Rightarrow> 'a list" where
  "Set_add xs x = (if x \<in> set xs then xs else xs @ [x])"

definition Set_delete :: "'a list \<Rightarrow> 'a \<Rightarrow> 'a list" where
  "Set_delete xs x = filter (\<lambda>y. y \<noteq> x) xs"

record mergeDB =
  names :: "(string \<times> owner) list"
  glue :: "string list"
  nsecChain :: "string list"

subsection \<open>Errors\<close>

text \<open>Every \<^verbatim>\<open>throw\<close>, failed \<^verbatim>\<open>assert\<close> and rejected promise of the source.\<close>

datatype error =
    Malformed_packet
  | Decode_failed
  | Id_mismatch
  | Empty_message
  | First_not_SOA
  | Transfer_too_large nat
  | Copy_out_of_range
  | Closed_unexpectedly
  | Timed_out
  | Socket_error string
  | NSEC3_not_supported
  | Unable_to_validate string
  | Invalid_data
  | NSEC_must_exist string
  | Could_not_find_type nat string
  | No_NS_in_bitmap string
  | Bad_NSEC_chain
  | Unable_to_write
  | Unable_to_load
  | No_zone_data
  | Type_error

fun digits :: "nat \<Rightarrow> string" where
  "digits n =
     (if n < 10 then [char_of (48 + n)]
      else digits (n div 10) @ [char_of (48 + n mod 10)])"

declare digits.simps [simp del]

fun toString :: "error \<Rightarrow> string" where
  "toString Malformed_packet = ''Malformed packet received''"
| "toString Decode_failed = ''Message decoding failed''"
| "toString Id_mismatch = ''Message id does not match''"
| "toString Empty_message = ''Empty message''"
| "toString First_not_SOA = ''First record must be SOA''"
| "toString (Transfer_too_large n) =
     ''Transfer is too large (max messages: '' @ digits n @ '')''"
| "toString Copy_out_of_range = ''The value of sourceEnd is out of range''"
| "toString Closed_unexpectedly = ''Closed unexpectedly''"
| "toString Timed_out = ''Timed out''"
| "toString (Socket_error s) = s"
| "toString NSEC3_not_supported = ''bogus: NSEC3 not supported''"
| "toString (Unable_to_validate n) = ''bogus: unable to validate zone data for '' @ n"
| "toString Invalid_data = ''bogus: invalid data''"
| "toString (NSEC_must_exist n) = ''bogus: NSEC must exist for '' @ n"
| "toString (Could_not_find_type t n) =
     ''bogus: could not find type '' @ digits t @ '' for '' @ n"
| "toString (No_NS_in_bitmap n) =
     ''bogus: claim to have a delegation yet no NS in NSEC bitmap for '' @ n"
| "toString Bad_NSEC_chain = ''bogus: bad NSEC chain''"
| "toString Unable_to_write = ''unable to write message''"
| "toString Unable_to_load = ''unable to load icann root zone''"
| "toString No_zone_data = ''no zone data''"
| "toString Type_error = ''TypeError''"

text \<open>A failure is classified bogus when its message starts with that word.\<close>

definition bogus :: "error \<Rightarrow> bool" where
  "bogus e = (take 6 (toString e) = ''bogus:'')"

section \<open>Outbound chunk writer (MessageWriter)\<close>

text \<open>
  \<^verbatim>\<open>Message.getSize(null)\<close> of bns: the 12 bytes of the DNS header, then every question
  and every record at its uncompressed size.
\<close>

definition msg_getSize :: "message \<Rightarrow> nat" where
  "msg_getSize m = 12 + sum_list (map qsize (question m)) + sum_list (map getSize (answer m))"

text \<open>\<^verbatim>\<open>Message.setReply(req)\<close> on a new message: the request's id and question.\<close>

definition setReply :: "message \<Rightarrow> message" where
  "setReply req = \<lparr>id_m = id_m req, question = question req, answer = []\<rparr>"

record writer =
  req :: message
  msg :: message
  size_w :: nat
  written :: nat

text \<open>
  The injected write callback receives \<^verbatim>\<open>this.msg.compress()\<close> and answers whether the
  transport took it. Its answer may depend on what was handed over before (a socket can
  go away during a transfer), so the model passes it the messages handed over so far and
  the current one; the list \<open>sent\<close> is the record of all calls that succeeded.
\<close>

type_synonym callback = "message list \<Rightarrow> message \<Rightarrow> bool"

definition reset :: "writer \<Rightarrow> writer" where
  "reset w =
     (let m = (msg w)\<lparr>answer := []\<rparr>
      in w\<lparr>msg := m, size_w := msg_getSize m\<rparr>)"

definition MessageWriter :: "message \<Rightarrow> writer" where
  "MessageWriter r =
     (reset \<lparr>req = r, msg = setReply r, size_w = 0, written = 0\<rparr>)\<lparr>written := 0\<rparr>"

definition flush :: "callback \<Rightarrow> writer \<times> message list \<Rightarrow> error + writer \<times> message list" where
  "flush write ws =
     (case ws of (w, sent) \<Rightarrow>
        if size_w w = 0 then Inr (w, sent)
        else if \<not> write sent (msg w) then Inl Unable_to_write
        else Inr (reset w, sent @ [msg w]))"

definition writeRR :: "callback \<Rightarrow> writer \<times> message list \<Rightarrow> rr \<Rightarrow> error + writer \<times> message list" where
  "writeRR write ws r =
     (case ws of (w, sent) \<Rightarrow>
        let w1 = w\<lparr>written := written w + 1\<rparr>;
            sz = getSize r
        in case (if sz + size_w w1 > MAX_MESSAGE_SIZE then flush write (w1, sent)
                 else Inr (w1, sent)) of
             Inl e \<Rightarrow> Inl e
           | Inr (w2, sent2) \<Rightarrow>
               Inr (w2\<lparr>size_w := size_w w2 + sz,
                       msg := (msg w2)\<lparr>answer := answer (msg w2) @ [r]\<rparr>\<rparr>, sent2))"

fun writeAll :: "callback \<Rightarrow> writer \<times> message list \<Rightarrow> rr list \<Rightarrow> error + writer \<times> message list" where
  "writeAll write ws [] = Inr ws"
| "writeAll write ws (r # rs) =
     (case writeRR write ws r of Inl e \<Rightarrow> Inl e | Inr ws' \<Rightarrow> writeAll write ws' rs)"

text \<open>All records on their way out: those of the messages handed over, then the buffer.\<close>

definition emitted :: "writer \<times> message list \<Rightarrow> rr list" where
  "emitted ws = concat (map answer (snd ws)) @ answer (msg (fst ws))"


text \<open>
  The writer's invariant: the running size is the uncompressed size of the buffered
  message, whose question section is the request's.
\<close>

definition writer_inv :: "writer \<Rightarrow> bool" where
  "writer_inv w = (size_w w = msg_getSize (msg w) \<and> question (msg w) = question (req w))"

subsection \<open>Sample data for the closed examples\<close>

definition sample_rr :: "string \<Rightarrow> nat \<Rightarrow> nat \<Rightarrow> rr" where
  "sample_rr n t sz =
     \<lparr>name = n, rtype = t, data = \<lparr>ns = [], nextDomain = [], getTypes = []\<rparr>, getSize = sz\<rparr>"

definition sample_req :: message where
  "sample_req = \<lparr>id_m = 7, question = [\<lparr>qname = ''.'', qtype = 252, qsize = 5\<rparr>], answer = []\<rparr>"

section \<open>Helpers of the bns library\<close>

text \<open>
  \<^verbatim>\<open>util.equal\<close>: names are compared without regard to ASCII case (bytes \<^verbatim>\<open>0x41\<close> to
  \<^verbatim>\<open>0x5a\<close> get bit \<^verbatim>\<open>0x20\<close> set).
\<close>

definition lower :: "char \<Rightarrow> char" where
  "lower c = (let x = (of_char c :: nat) in if 65 \<le> x \<and> x \<le> 90 then char_of (x + 32) else c)"

definition util_equal :: "string \<Rightarrow> string \<Rightarrow> bool" where
  "util_equal a b = (length a = length b \<and> map lower a = map lower b)"

text \<open>
  \<^verbatim>\<open>util.extractSet(records, name, ...types)\<close> keeps the records of one of the types whose
  owner equals the name (any owner for the empty name); \<^verbatim>\<open>util.filterSet(records, ...types)\<close>
  drops the records of the types; \<^verbatim>\<open>util.hasType(records, type)\<close>.
\<close>

definition extractSet :: "rr list \<Rightarrow> string \<Rightarrow> nat list \<Rightarrow> rr list" where
  "extractSet records nm ts =
     filter (\<lambda>r. rtype r \<in> set ts \<and> (nm = [] \<or> util_equal (name r) nm)) records"

definition filterSet :: "rr list \<Rightarrow> nat list \<Rightarrow> rr list" where
  "filterSet records ts = filter (\<lambda>r. rtype r \<notin> set ts) records"

definition hasType :: "rr list \<Rightarrow> nat \<Rightarrow> bool" where
  "hasType records t = list_ex (\<lambda>r. rtype r = t) records"

text \<open>
  \<^verbatim>\<open>util.split(name)\<close> lists the offsets at which the labels of a name start: offset 0
  and the offset after every dot that is not escaped by a backslash, the last character
  of the name left out; the root name has no label. The flag is the escape state.
\<close>

fun label_offsets :: "bool \<Rightarrow> nat \<Rightarrow> string \<Rightarrow> nat list" where
  "label_offsets q i [] = []"
| "label_offsets q i [c] = []"
| "label_offsets q i (c # d # cs) =
     (if c = CHR 0x5C then label_offsets (\<not> q) (Suc i) (d # cs)
      else if c = CHR ''.'' then
        (if q then label_offsets False (Suc i) (d # cs)
         else Suc i # label_offsets False (Suc i) (d # cs))
      else label_offsets False (Suc i) (d # cs))"

definition util_split :: "string \<Rightarrow> nat list" where
  "util_split nm = (if nm = ''.'' then [] else 0 # label_offsets False 0 nm)"

text \<open>
  \<^verbatim>\<open>util.from(name, index)\<close>: the name from its label number \<open>idx\<close> on, a negative index
  counting from the last label. For the root name and index \<open>-1\<close> the JavaScript reads
  \<^verbatim>\<open>labels[-1]\<close>, which is \<^verbatim>\<open>undefined\<close>, and \<^verbatim>\<open>substring(undefined)\<close> is the whole name.
\<close>

definition util_from :: "string \<Rightarrow> int \<Rightarrow> string" where
  "util_from nm idx =
     (let labels = util_split nm;
          i = (if idx < 0 then idx + int (length labels) else idx)
      in if i \<ge> int (length labels) then []
         else if i < 0 then nm
         else drop (labels ! nat i) nm)"

definition util_fqdn :: "string \<Rightarrow> string" where
  "util_fqdn nm = (if nm \<noteq> [] \<and> last nm = CHR ''.'' then nm else nm @ ''.'')"

section \<open>Zone validator (AXFRValidator)\<close>

record validator =
  owners :: "(string \<times> owner) list"
  maybeGlue :: "string list"
  origin :: string

definition AXFRValidator :: validator where
  "AXFRValidator = \<lparr>owners = [], maybeGlue = [], origin = ''.''\<rparr>"

text \<open>The body of the first loop of \<^verbatim>\<open>verifyZone\<close>, for one record.\<close>

definition collect_rr :: "validator \<Rightarrow> rr \<Rightarrow> error + validator" where
  "collect_rr v r =
     (let v1 = (if rtype r = types_NS
                then v\<lparr>maybeGlue := Set_add (maybeGlue v) (ns (data r))\<rparr> else v)
      in if rtype r = types_NSEC3 then Inl NSEC3_not_supported
         else
           let ow = (case map_of (owners v1) (name r) of
                       None \<Rightarrow> \<lparr>delegation = False, rrs = []\<rparr>
                     | Some ow \<Rightarrow> ow);
               ow1 = (if rtype r = types_NS \<and> name r \<noteq> origin v1
                      then ow\<lparr>delegation := True\<rparr> else ow);
               ow2 = ow1\<lparr>rrs := rrs ow1 @ [r]\<rparr>
           in Inr (v1\<lparr>owners := AList.update (name r) ow2 (owners v1)\<rparr>))"

fun collect_rrs :: "validator \<Rightarrow> rr list \<Rightarrow> error + validator" where
  "collect_rrs v [] = Inr v"
| "collect_rrs v (r # rs) =
     (case collect_rr v r of Inl e \<Rightarrow> Inl e | Inr v' \<Rightarrow> collect_rrs v' rs)"

fun collect :: "validator \<Rightarrow> message list \<Rightarrow> error + validator" where
  "collect v [] = Inr v"
| "collect v (m # ms) =
     (case collect_rrs v (answer m) of Inl e \<Rightarrow> Inl e | Inr v' \<Rightarrow> collect v' ms)"

text \<open>
  The second loop, over the owners in insertion order. \<open>verifyMessage\<close> stands for
  \<^verbatim>\<open>dnssec.verifyMessage\<close>, applied to the answer section of \<^verbatim>\<open>buf\<close> and the key map.
\<close>

definition buf_answer :: "owner \<Rightarrow> rr list" where
  "buf_answer ow = (if delegation ow then filterSet (rrs ow) [types_NS] else rrs ow)"

fun verify_owners ::
  "(rr list \<Rightarrow> 'k \<Rightarrow> bool) \<Rightarrow> 'k \<Rightarrow> validator \<Rightarrow> (string \<times> owner) list \<Rightarrow> string list
     \<Rightarrow> error + string list" where
  "verify_owners verifyMessage keyMap v [] g = Inr g"
| "verify_owners verifyMessage keyMap v ((nm, ow) # rest) g =
     (if nm \<in> set (maybeGlue v) \<and>
         (case map_of (owners v) (util_fqdn (util_from nm (- 1))) of
            None \<Rightarrow> False
          | Some parent \<Rightarrow> delegation parent) \<and>
         filterSet (rrs ow) [types_A, types_AAAA] = []
      then verify_owners verifyMessage keyMap v rest (Set_add g nm)
      else if \<not> verifyMessage (buf_answer ow) keyMap then Inl (Unable_to_validate nm)
      else verify_owners verifyMessage keyMap v rest g)"

fun verifyBitmap_loop :: "string \<Rightarrow> owner \<Rightarrow> nat list \<Rightarrow> bool \<Rightarrow> error + bool" where
  "verifyBitmap_loop nm ow [] hasNS = Inr hasNS"
| "verifyBitmap_loop nm ow (t # ts) hasNS =
     (if \<not> hasType (rrs ow) t then Inl (Could_not_find_type t nm)
      else verifyBitmap_loop nm ow ts (if t = types_NS then True else hasNS))"

definition verifyBitmap :: "string \<Rightarrow> owner \<Rightarrow> nat list \<Rightarrow> error + unit" where
  "verifyBitmap nm ow bitmap =
     (case verifyBitmap_loop nm ow bitmap False of
        Inl e \<Rightarrow> Inl e
      | Inr hasNS \<Rightarrow> if delegation ow \<and> \<not> hasNS then Inl (No_NS_in_bitmap nm) else Inr ())"

text \<open>The loop of \<^verbatim>\<open>verifyNSEC\<close>: \<open>nm\<close> is the owner visited, \<open>seen\<close> the set so far.\<close>

function nsec_loop :: "validator \<Rightarrow> string \<Rightarrow> string list \<Rightarrow> error + string list" where
  "nsec_loop v nm seen =
     (case map_of (owners v) nm of
        None \<Rightarrow> Inl Invalid_data
      | Some ow \<Rightarrow>
          (case extractSet (rrs ow) nm [types_NSEC] of
             [r] \<Rightarrow>
               (case verifyBitmap nm ow (getTypes (data r)) of
                  Inl e \<Rightarrow> Inl e
                | Inr u \<Rightarrow>
                    if nextDomain (data r) \<in> set seen
                    then (if nextDomain (data r) \<noteq> origin v then Inl Bad_NSEC_chain
                          else Inr seen)
                    else nsec_loop v (nextDomain (data r)) (Set_add seen (nextDomain (data r))))
           | _ \<Rightarrow> Inl (NSEC_must_exist nm)))"
  by pat_completeness auto

termination
proof (relation "measure (\<lambda>(v, nm, seen).
    2 * card (fst ` set (owners v) - set seen) + (if nm \<in> fst ` set (owners v) then 1 else 0))")
  show "wf (measure (\<lambda>(v, nm, seen).
    2 * card (fst ` set (owners v) - set seen) + (if nm \<in> fst ` set (owners v) then 1 else 0)))"
    by simp
next
  fix v :: validator and nm :: string and seen :: "string list" and ow r
  assume own: "map_of (owners v) nm = Some ow"
    and new: "nextDomain (data r) \<notin> set seen"
  let ?K = "fst ` set (owners v)" and ?n = "nextDomain (data r)"
  have nmK: "nm \<in> ?K"
    using own by (metis map_of_eq_None_iff option.distinct(1))
  have fin: "finite (?K - set seen)" by simp
  show "((v, ?n, Set_add seen ?n), (v, nm, seen)) \<in> measure (\<lambda>(v, nm, seen).
    2 * card (fst ` set (owners v) - set seen) + (if nm \<in> fst ` set (owners v) then 1 else 0))"
  proof (cases "?n \<in> ?K")
    case True
    then have "?n \<in> ?K - set seen" using new by simp
    then have "card (?K - set seen - {?n}) < card (?K - set seen)"
      using fin by (meson card_Diff1_less)
    moreover have "?K - set (Set_add seen ?n) = ?K - set seen - {?n}"
      using new by (auto simp: Set_add_def)
    ultimately show ?thesis using nmK True by simp
  next
    case False
    then have "?K - set (Set_add seen ?n) = ?K - set seen"
      using new by (auto simp: Set_add_def)
    then show ?thesis using nmK False by simp
  qed
qed

definition verifyNSEC :: "validator \<Rightarrow> error + string list" where
  "verifyNSEC v = nsec_loop v (origin v) (Set_add [] (origin v))"

definition verifyZone ::
  "(rr list \<Rightarrow> 'k \<Rightarrow> bool) \<Rightarrow> validator \<Rightarrow> message list \<Rightarrow> 'k \<Rightarrow> error + mergeDB" where
  "verifyZone verifyMessage v messages keyMap =
     (case collect v messages of
        Inl e \<Rightarrow> Inl e
      | Inr v1 \<Rightarrow>
          (case verify_owners verifyMessage keyMap v1 (owners v1) [] of
             Inl e \<Rightarrow> Inl e
           | Inr g \<Rightarrow>
               (case verifyNSEC v1 of
                  Inl e \<Rightarrow> Inl e
                | Inr chain \<Rightarrow> Inr \<lparr>names = owners v1, glue = g, nsecChain = chain\<rparr>)))"

declare nsec_loop.simps [simp del]

subsection \<open>What a closed non-existence chain is\<close>

text \<open>
  The statement of the walk's result, in the words of the specification: an owner is a
  good link to \<open>nxt\<close> when it has exactly one NSEC record, every type of that record's
  bitmap has a record at the owner, NS is in the bitmap if the owner is a delegation, and
  the record points to \<open>nxt\<close>; a closed chain starts at the origin, never repeats a name,
  links each name to the following one and the last name back to the origin.
\<close>

definition nsec_node :: "validator \<Rightarrow> string \<Rightarrow> string \<Rightarrow> bool" where
  "nsec_node v nm nxt =
     (case map_of (owners v) nm of
        None \<Rightarrow> False
      | Some ow \<Rightarrow>
          (case extractSet (rrs ow) nm [types_NSEC] of
             [r] \<Rightarrow> list_all (hasType (rrs ow)) (getTypes (data r)) \<and>
                    (delegation ow \<longrightarrow> types_NS \<in> set (getTypes (data r))) \<and>
                    nextDomain (data r) = nxt
           | _ \<Rightarrow> False))"

fun nsec_links :: "validator \<Rightarrow> string list \<Rightarrow> bool" where
  "nsec_links v [] = False"
| "nsec_links v [n] = nsec_node v n (origin v)"
| "nsec_links v (n # m # rest) = (nsec_node v n m \<and> nsec_links v (m # rest))"

definition closed_chain :: "validator \<Rightarrow> string list \<Rightarrow> bool" where
  "closed_chain v seen = (seen \<noteq> [] \<and> hd seen = origin v \<and> distinct seen \<and> nsec_links v seen)"

subsection \<open>Glue classification, in the words of the claim\<close>

text \<open>
  The names referenced as NS targets; the condition the code tests (the owner named by
  the last label of the name, \<^verbatim>\<open>util.from(name, -1)\<close>, is a delegation, and every record
  of the owner is an A or AAAA record); and the parent the specification speaks of, the
  name without its leftmost label.
\<close>

definition ns_targets :: "message list \<Rightarrow> string list" where
  "ns_targets ms = map (\<lambda>r. ns (data r)) (filter (\<lambda>r. rtype r = types_NS) (concat (map answer ms)))"

definition in_delegated_tld :: "(string \<times> owner) list \<Rightarrow> string \<Rightarrow> bool" where
  "in_delegated_tld os nm =
     (case map_of os (util_fqdn (util_from nm (- 1))) of
        None \<Rightarrow> False
      | Some parent \<Rightarrow> delegation parent)"

definition address_only :: "owner \<Rightarrow> bool" where
  "address_only ow = list_all (\<lambda>r. rtype r = types_A \<or> rtype r = types_AAAA) (rrs ow)"

definition strip_leftmost_label :: "string \<Rightarrow> string" where
  "strip_leftmost_label nm = util_fqdn (util_from nm 1)"

definition is_glue :: "validator \<Rightarrow> string \<Rightarrow> owner \<Rightarrow> bool" where
  "is_glue v nm ow =
     (nm \<in> set (maybeGlue v) \<and> in_delegated_tld (owners v) nm \<and> address_only ow)"

subsection \<open>A sample zone\<close>

text \<open>
  The root with one delegation \<^verbatim>\<open>de.\<close>, whose name server \<^verbatim>\<open>a.nic.de.\<close> has an address
  record in the zone, as the root zone has them.
\<close>

definition zone_rr :: "string \<Rightarrow> nat \<Rightarrow> rr" where
  "zone_rr n t = sample_rr n t 30"

definition ns_rr :: "string \<Rightarrow> string \<Rightarrow> rr" where
  "ns_rr n tgt = (zone_rr n types_NS)\<lparr>data := \<lparr>ns = tgt, nextDomain = [], getTypes = []\<rparr>\<rparr>"

definition nsec_rr :: "string \<Rightarrow> string \<Rightarrow> nat list \<Rightarrow> rr" where
  "nsec_rr n nxt ts = (zone_rr n types_NSEC)\<lparr>data := \<lparr>ns = [], nextDomain = nxt, getTypes = ts\<rparr>\<rparr>"

definition sample_zone :: "message list" where
  "sample_zone =
     [\<lparr>id_m = 7, question = [],
       answer = [zone_rr ''.'' types_SOA,
                 nsec_rr ''.'' ''de.'' [types_SOA, types_NSEC],
                 ns_rr ''de.'' ''a.nic.de.'',
                 nsec_rr ''de.'' ''.'' [types_NS, types_NSEC]]\<rparr>,
      \<lparr>id_m = 7, question = [],
       answer = [zone_rr ''a.nic.de.'' types_A,
                 zone_rr ''.'' types_SOA]\<rparr>]"

definition sample_owners :: "(string \<times> owner) list" where
  "sample_owners =
     [(''.'', \<lparr>delegation = False,
              rrs = [zone_rr ''.'' types_SOA, nsec_rr ''.'' ''de.'' [types_SOA, types_NSEC],
                     zone_rr ''.'' types_SOA]\<rparr>),
      (''de.'', \<lparr>delegation = True,
              rrs = [ns_rr ''de.'' ''a.nic.de.'', nsec_rr ''de.'' ''.'' [types_NS, types_NSEC]]\<rparr>),
      (''a.nic.de.'', \<lparr>delegation = False, rrs = [zone_rr ''a.nic.de.'' types_A]\<rparr>)]"

definition sample_validator :: validator where
  "sample_validator = \<lparr>owners = sample_owners, maybeGlue = [''a.nic.de.''], origin = ''.''\<rparr>"

text \<open>A zone whose chain loops at a name other than the origin.\<close>

definition looping_validator :: validator where
  "looping_validator =
     \<lparr>owners =
        [(''.'', \<lparr>delegation = False,
                 rrs = [zone_rr ''.'' types_SOA, nsec_rr ''.'' ''de.'' [types_SOA, types_NSEC]]\<rparr>),
         (''de.'', \<lparr>delegation = True,
                 rrs = [ns_rr ''de.'' ''a.nic.de.'', nsec_rr ''de.'' ''de.'' [types_NS, types_NSEC]]\<rparr>)],
      maybeGlue = [''a.nic.de.''], origin = ''.''\<rparr>"

text \<open>
  The merge database of the sample zone, and a signature check that refuses every
  address record.
\<close>

definition sample_db :: mergeDB where
  "sample_db = \<lparr>names = sample_owners, glue = [''a.nic.de.''], nsecChain = [''.'', ''de.'']\<rparr>"

definition no_address :: "rr list \<Rightarrow> unit \<Rightarrow> bool" where
  "no_address rs k = list_all (\<lambda>r. rtype r \<noteq> types_A) rs"

section \<open>Transfer requester (AXFRQuery, AXFRClient)\<close>

text \<open>
  The in-flight query. \<^verbatim>\<open>buf\<close> is the scratch buffer of 65535 bytes, an array read and
  written by index: a map from index to byte (every access of the code stays below
  \<^verbatim>\<open>target\<close>, a 16-bit number). The socket and the promise callbacks are not state of
  the model: a call of \<^verbatim>\<open>resolve\<close> is the outcome \<open>Resolved\<close> (where the code also sets
  \<^verbatim>\<open>ok\<close> and destroys the socket), a \<^verbatim>\<open>throw\<close> in \<^verbatim>\<open>read\<close> is caught by the data handler and
  is the outcome \<open>Rejected\<close>, and \<open>Pending\<close> is a return that waits for more data.
\<close>

record query_state =
  buf :: "nat \<Rightarrow> byte"
  target :: nat
  size_q :: nat
  id_q :: nat
  msgs :: "message list"
  maxMessages :: nat

datatype outcome = Rejected error | Resolved "message list" | Pending query_state

text \<open>
  The constructor; \<open>mem\<close> is what \<^verbatim>\<open>Buffer.allocUnsafe\<close> happens to return. The id is set
  when the connection is made.
\<close>

definition AXFRQuery :: "(nat \<Rightarrow> byte) \<Rightarrow> nat \<Rightarrow> query_state" where
  "AXFRQuery mem mx = \<lparr>buf = mem, target = 0, size_q = 0, id_q = 0, msgs = [], maxMessages = mx\<rparr>"

text \<open>\<^verbatim>\<open>readUInt16BE\<close>, \<^verbatim>\<open>copy(target, targetStart, sourceStart, sourceEnd)\<close> and \<^verbatim>\<open>slice\<close> of Buffer.\<close>

definition readUInt16BE :: "byte list \<Rightarrow> nat \<Rightarrow> nat" where
  "readUInt16BE b off = 256 * unat (b ! off) + unat (b ! (off + 1))"

definition copy :: "byte list \<Rightarrow> (nat \<Rightarrow> byte) \<Rightarrow> nat \<Rightarrow> nat \<Rightarrow> nat \<Rightarrow> nat \<Rightarrow> byte" where
  "copy src tgt targetStart sourceStart sourceEnd =
     (\<lambda>i. if targetStart \<le> i \<and> i < targetStart + (sourceEnd - sourceStart)
          then src ! (sourceStart + (i - targetStart)) else tgt i)"

definition slice :: "(nat \<Rightarrow> byte) \<Rightarrow> nat \<Rightarrow> nat \<Rightarrow> byte list" where
  "slice b start end = map b [start..<end]"

text \<open>
  \<^verbatim>\<open>read\<close> in its three parts. First the bytes of the chunk that belong to the current
  frame are copied into the buffer (\<open>store\<close>, after \<open>fill\<close> has taken the length prefix
  when no frame is in progress); \<open>remaining\<close> is \<^verbatim>\<open>null\<close> (\<open>None\<close>) or the rest of the
  chunk. A state with \<^verbatim>\<open>size > target\<close> would give \<^verbatim>\<open>copy\<close> a negative end, which Node
  refuses; no run reaches such a state (lemma \<open>read_inv\<close>).
\<close>

definition store :: "query_state \<Rightarrow> byte list \<Rightarrow> error + query_state \<times> byte list option" where
  "store q dat =
     (let over = (target q < size_q q + length dat);
          writeLength = (if over then target q - size_q q else length dat);
          remaining = (if over then Some (drop writeLength dat) else None)
      in if over \<and> target q < size_q q then Inl Copy_out_of_range
         else Inr (q\<lparr>buf := copy dat (buf q) (size_q q) 0 writeLength,
                     size_q := size_q q + writeLength\<rparr>, remaining))"

definition fill :: "query_state \<Rightarrow> byte list \<Rightarrow> error + query_state \<times> byte list option" where
  "fill q data0 =
     (if target q = 0 then
        if \<not> 1 < length data0 then Inl Malformed_packet
        else store (q\<lparr>target := readUInt16BE data0 0\<rparr>) (drop 2 data0)
      else store q (drop 0 data0))"

text \<open>The block run when \<^verbatim>\<open>this.size === this.target\<close>: the frame is complete.\<close>

definition frame_done :: "(byte list \<Rightarrow> message option) \<Rightarrow> query_state \<Rightarrow> outcome" where
  "frame_done decode q =
     (case decode (slice (buf q) 0 (target q)) of
        None \<Rightarrow> Rejected Decode_failed
      | Some m \<Rightarrow>
          if id_m m \<noteq> id_q q then Rejected Id_mismatch
          else if answer m = [] then Rejected Empty_message
          else if msgs q = [] \<and> rtype (hd (answer m)) \<noteq> types_SOA then Rejected First_not_SOA
          else if length (msgs q) + 1 > maxMessages q
          then Rejected (Transfer_too_large (maxMessages q))
          else
            let q' = q\<lparr>msgs := msgs q @ [m]\<rparr>
            in if rtype (last (answer m)) = types_SOA then Resolved (msgs q')
               else Pending (q'\<lparr>target := 0, size_q := 0\<rparr>))"

text \<open>\<^verbatim>\<open>read\<close> itself, calling itself on the rest of the chunk.\<close>

function read :: "(byte list \<Rightarrow> message option) \<Rightarrow> query_state \<Rightarrow> byte list \<Rightarrow> outcome" where
  "read decode q data0 =
     (case fill q data0 of
        Inl e \<Rightarrow> Rejected e
      | Inr (q1, remaining) \<Rightarrow>
          if size_q q1 = target q1 then
            (case frame_done decode q1 of
               Pending q2 \<Rightarrow>
                 (case remaining of None \<Rightarrow> Pending q2 | Some rest \<Rightarrow> read decode q2 rest)
             | r \<Rightarrow> r)
          else
            (case remaining of None \<Rightarrow> Pending q1 | Some rest \<Rightarrow> read decode q1 rest))"
  by pat_completeness auto

termination
proof (relation "measure (\<lambda>(decode, q, data0). 2 * length data0 + (if target q = 0 then 0 else 1))")
  show "wf (measure (\<lambda>(decode, q :: query_state, data0 :: byte list).
      2 * length data0 + (if target q = 0 then 0 else 1)))"
    by simp
next
  fix decode :: "byte list \<Rightarrow> message option" and q q1 q2 :: query_state and data0 rest :: "byte list"
    and x remaining
  assume f: "fill q data0 = Inr x" and x: "(q1, remaining) = x"
    and full: "size_q q1 = target q1"
    and d: "frame_done decode q1 = Pending q2" and r: "remaining = Some rest"
  have t2: "target q2 = 0"
    using d by (auto simp: frame_done_def Let_def split: option.splits if_splits)
  have "2 * length rest < 2 * length data0 + (if target q = 0 then 0 else 1)"
    using f x r by (auto simp: fill_def store_def Let_def split: if_splits)
  then show "((decode, q2, rest), (decode, q, data0))
      \<in> measure (\<lambda>(decode, q, data0). 2 * length data0 + (if target q = 0 then 0 else 1))"
    using t2 by simp
next
  fix decode :: "byte list \<Rightarrow> message option" and q q1 :: query_state and data0 rest :: "byte list"
    and x remaining
  assume f: "fill q data0 = Inr x" and x: "(q1, remaining) = x"
    and nfull: "size_q q1 \<noteq> target q1" and r: "remaining = Some rest"
  have False
    using f x r nfull by (auto simp: fill_def store_def Let_def split: if_splits)
  then show "((decode, q1, rest), (decode, q, data0))
      \<in> measure (\<lambda>(decode, q, data0). 2 * length data0 + (if target q = 0 then 0 else 1))"
    by simp
qed

declare read.simps [simp del]

text \<open>The data events of one connection, in order, until the promise is settled.\<close>

fun feed :: "(byte list \<Rightarrow> message option) \<Rightarrow> query_state \<Rightarrow> byte list list \<Rightarrow> outcome" where
  "feed decode q [] = Pending q"
| "feed decode q (c # cs) =
     (case read decode q c of Pending q' \<Rightarrow> feed decode q' cs | r \<Rightarrow> r)"



text \<open>
  A stand-in for \<^verbatim>\<open>Message.decode\<close> in the closed examples: the first byte of a frame is
  the id, every further byte the type of one answer record.
\<close>

definition sample_decode :: "byte list \<Rightarrow> message option" where
  "sample_decode bs =
     (case bs of
        [] \<Rightarrow> None
      | i # ts \<Rightarrow>
          Some \<lparr>id_m = unat i, question = [], answer = map (\<lambda>t. sample_rr ''.'' (unat t) 11) ts\<rparr>)"

definition sample_query :: query_state where
  "sample_query = (AXFRQuery (\<lambda>i. 0) 1000)\<lparr>id_q := 7\<rparr>"

definition sample_stream :: "byte list" where
  "sample_stream = [0, 3, 7, 6, 1, 0, 3, 7, 1, 6]"

definition sample_msgs :: "message list" where
  "sample_msgs =
     [\<lparr>id_m = 7, question = [], answer = [sample_rr ''.'' types_SOA 11, sample_rr ''.'' types_A 11]\<rparr>,
      \<lparr>id_m = 7, question = [], answer = [sample_rr ''.'' types_A 11, sample_rr ''.'' types_SOA 11]\<rparr>]"

text \<open>
  What the network does to one connection attempt: the connection fails with an error,
  or data arrives in chunks and then the peer closes, or data arrives and then nothing
  until the idle timeout fires. \<^verbatim>\<open>exchange\<close> sets the id when connected and settles the
  promise from the data events, or from the close or timeout event while still pending.
\<close>

datatype connection = Refused error | Stream "byte list list" | Stalled "byte list list"

definition exchange ::
  "(byte list \<Rightarrow> message option) \<Rightarrow> query_state \<Rightarrow> nat \<Rightarrow> connection \<Rightarrow> error + message list" where
  "exchange decode q i conn =
     (case conn of
        Refused e \<Rightarrow> Inl e
      | Stream chunks \<Rightarrow>
          (case feed decode (q\<lparr>id_q := i\<rparr>) chunks of
             Resolved ms \<Rightarrow> Inr ms
           | Rejected e \<Rightarrow> Inl e
           | Pending q' \<Rightarrow> Inl Closed_unexpectedly)
      | Stalled chunks \<Rightarrow>
          (case feed decode (q\<lparr>id_q := i\<rparr>) chunks of
             Resolved ms \<Rightarrow> Inr ms
           | Rejected e \<Rightarrow> Inl e
           | Pending q' \<Rightarrow> Inl Timed_out))"

text \<open>
  The client. \<^verbatim>\<open>servers\<close> is \<^verbatim>\<open>null\<close> until options name servers; \<open>fromHost\<close> stands for
  \<^verbatim>\<open>IP.fromHost\<close>. An option is absent (\<open>None\<close>) or given.
\<close>

record server =
  host :: string
  port :: nat

record options =
  opt_servers :: "string list option"
  opt_maxAttempts :: "nat option"
  opt_maxTimeout :: "nat option"
  opt_maxMessages :: "nat option"

record client =
  index :: nat
  maxAttempts :: nat
  maxTimeout :: nat
  maxMessages_c :: nat
  servers :: "server list option"

definition parseOptions :: "(string \<Rightarrow> nat \<Rightarrow> server) \<Rightarrow> client \<Rightarrow> options option \<Rightarrow> client" where
  "parseOptions fromHost c opts =
     (case opts of
        None \<Rightarrow> c
      | Some p \<Rightarrow>
          let c1 = (case opt_servers p of
                      None \<Rightarrow> c
                    | Some ss \<Rightarrow> c\<lparr>servers := Some (map (\<lambda>s. fromHost s 53) ss)\<rparr>);
              c2 = (case opt_maxAttempts p of None \<Rightarrow> c1 | Some n \<Rightarrow> c1\<lparr>maxAttempts := n\<rparr>);
              c3 = (case opt_maxTimeout p of None \<Rightarrow> c2 | Some n \<Rightarrow> c2\<lparr>maxTimeout := n\<rparr>)
          in (case opt_maxMessages p of
                None \<Rightarrow> c3
              | Some n \<Rightarrow> if n \<noteq> 0 then c3\<lparr>maxMessages_c := n\<rparr> else c3))"

definition AXFRClient :: "(string \<Rightarrow> nat \<Rightarrow> server) \<Rightarrow> options option \<Rightarrow> client" where
  "AXFRClient fromHost opts =
     parseOptions fromHost
       \<lparr>index = 0, maxAttempts = 6, maxTimeout = 6000, maxMessages_c = 1000, servers = None\<rparr> opts"

text \<open>
  \<^verbatim>\<open>this.servers[this.index]\<close>: a \<^verbatim>\<open>TypeError\<close> when \<^verbatim>\<open>servers\<close> is \<^verbatim>\<open>null\<close>,
  \<^verbatim>\<open>undefined\<close> (\<open>None\<close>) when the index is out of range. With an empty list JavaScript's
  \<^verbatim>\<open>% 0\<close> is \<^verbatim>\<open>NaN\<close>; \<^verbatim>\<open>nextServer\<close> is not reached then, because the \<^verbatim>\<open>catch\<close> block
  of \<^verbatim>\<open>query\<close> already throws on \<^verbatim>\<open>server.host\<close>.
\<close>

definition getServer :: "client \<Rightarrow> error + server option" where
  "getServer c =
     (case servers c of
        None \<Rightarrow> Inl Type_error
      | Some ss \<Rightarrow> Inr (if index c < length ss then Some (ss ! index c) else None))"

definition nextServer :: "client \<Rightarrow> error + client \<times> server option" where
  "nextServer c =
     (case servers c of
        None \<Rightarrow> Inl Type_error
      | Some ss \<Rightarrow>
          let i = (index c + 1) mod length ss
          in Inr (c\<lparr>index := i\<rparr>, if i < length ss then Some (ss ! i) else None))"

text \<open>
  What the model does not decide: the id \<^verbatim>\<open>util.id()\<close> draws at attempt \<open>i\<close>, the
  contents of the buffer allocated for it, and what the network does when attempt \<open>i\<close>
  connects to a server.
\<close>

record world =
  new_id :: "nat \<Rightarrow> nat"
  memory :: "nat \<Rightarrow> nat \<Rightarrow> byte"
  connect :: "nat \<Rightarrow> server \<Rightarrow> connection"

type_synonym attempt_log = "(string \<times> nat \<times> error) list"

text \<open>
  The loop of \<^verbatim>\<open>query\<close>; the log collects the warnings as host, port and error. An
  \<^verbatim>\<open>undefined\<close> server makes \<^verbatim>\<open>server.port\<close> throw inside \<^verbatim>\<open>try\<close> and \<^verbatim>\<open>server.host\<close>
  throw again inside \<^verbatim>\<open>catch\<close>. The result \<open>None\<close> is \<^verbatim>\<open>null\<close>.
\<close>

function query_loop ::
  "(byte list \<Rightarrow> message option) \<Rightarrow> world \<Rightarrow> client \<Rightarrow> server option \<Rightarrow> nat \<Rightarrow> attempt_log
     \<Rightarrow> (error + message list option) \<times> client \<times> attempt_log" where
  "query_loop decode w c srv i log =
     (if i < maxAttempts c then
        (case srv of
           None \<Rightarrow> (Inl Type_error, c, log)
         | Some s \<Rightarrow>
             (case exchange decode (AXFRQuery (memory w i) (maxMessages_c c)) (new_id w i)
                     (connect w i s) of
                Inr ms \<Rightarrow> (Inr (Some ms), c, log)
              | Inl e \<Rightarrow>
                  (case nextServer c of
                     Inl te \<Rightarrow> (Inl te, c, log @ [(host s, port s, e)])
                   | Inr (c', srv') \<Rightarrow>
                       query_loop decode w c' srv' (i + 1) (log @ [(host s, port s, e)]))))
      else (Inr None, c, log))"
  by pat_completeness auto

termination
proof (relation "measure (\<lambda>(decode, w, c, srv, i, log). maxAttempts c - i)")
  show "wf (measure (\<lambda>(decode :: byte list \<Rightarrow> message option, w :: world, c :: client,
      srv :: server option, i :: nat, log :: attempt_log). maxAttempts c - i))"
    by simp
next
  fix decode :: "byte list \<Rightarrow> message option" and w :: world and c c' :: client
    and srv srv' :: "server option" and i :: nat and log :: attempt_log and x
  assume lt: "i < maxAttempts c" and n: "nextServer c = Inr x" and x: "(c', srv') = x"
  have "maxAttempts c' = maxAttempts c"
    using n x by (auto simp: nextServer_def Let_def split: option.splits)
  then show "((decode, w, c', srv', i + 1, log @ [(host s, port s, e)]), (decode, w, c, srv, i, log))
      \<in> measure (\<lambda>(decode, w, c, srv, i, log). maxAttempts c - i)" for s :: server and e
    using lt by simp
qed

declare query_loop.simps [simp del]

definition query ::
  "(byte list \<Rightarrow> message option) \<Rightarrow> world \<Rightarrow> client
     \<Rightarrow> (error + message list option) \<times> client \<times> attempt_log" where
  "query decode w c =
     (case getServer c of
        Inl te \<Rightarrow> (Inl te, c, [])
      | Inr srv \<Rightarrow> query_loop decode w c srv 0 [])"


section \<open>Transfer orchestrator (Plugin)\<close>

text \<open>
  The configuration of the plugin, the request's \<^verbatim>\<open>rinfo\<close>, the entries the tree iterator
  yields (\<^verbatim>\<open>NameState.decode\<close> applied), and what the node provides: the SOA record, the
  tree and the trusted keys. \<open>toZone\<close> stands for \<^verbatim>\<open>Resource.decode(data).toZone(fqdn)\<close>.
\<close>

record plugin =
  ipList :: "string list"
  preferICANN :: bool
  disableMerge :: bool
  axfrClient :: client

record rinfo =
  port_r :: nat
  address :: string
  tcp :: bool

record namestate =
  ns_name :: string
  ns_data :: "byte list"

record 'k node =
  toSOA :: rr
  tree :: "namestate list"
  icann_keyMap :: 'k

datatype response = Refuse | Reply message

definition show_bool :: "bool \<Rightarrow> string" where
  "show_bool b = (if b then ''true'' else ''false'')"

definition pickRRs ::
  "plugin \<Rightarrow> string \<Rightarrow> rr list \<Rightarrow> mergeDB \<Rightarrow> string list \<Rightarrow> rr list \<times> mergeDB \<times> string list" where
  "pickRRs pl nm hnsZone db log =
     (if nm \<notin> set (nsecChain db) then (hnsZone, db, log)
      else
        let log' = log @ [''name collision for '' @ nm @ '' (prefer icann: '' @
                           show_bool (preferICANN pl) @ '')'']
        in if \<not> preferICANN pl
           then (hnsZone, db\<lparr>nsecChain := Set_delete (nsecChain db) nm\<rparr>, log')
           else ([], db, log'))"

text \<open>The inner loop over a local zone: signature records are skipped.\<close>

fun write_local ::
  "callback \<Rightarrow> writer \<times> message list \<Rightarrow> rr list \<Rightarrow> error + writer \<times> message list" where
  "write_local write ws [] = Inr ws"
| "write_local write ws (r # rs) =
     (if rtype r = types_RRSIG then write_local write ws rs
      else case writeRR write ws r of Inl e \<Rightarrow> Inl e | Inr ws' \<Rightarrow> write_local write ws' rs)"

text \<open>The loop over the tree, threading the writer, the merge database and the log.\<close>

fun local_loop ::
  "(byte list \<Rightarrow> string \<Rightarrow> rr list) \<Rightarrow> callback \<Rightarrow> plugin \<Rightarrow> namestate list
     \<Rightarrow> (writer \<times> message list) \<times> mergeDB \<times> string list
     \<Rightarrow> error + (writer \<times> message list) \<times> mergeDB \<times> string list" where
  "local_loop toZone write pl [] st = Inr st"
| "local_loop toZone write pl (e # es) (ws, db, log) =
     (if length (ns_data e) \<le> 0 then local_loop toZone write pl es (ws, db, log)
      else
        (case pickRRs pl (util_fqdn (ns_name e)) (toZone (ns_data e) (util_fqdn (ns_name e))) db log of
           (zone, db', log') \<Rightarrow>
             if length zone = 0 then local_loop toZone write pl es (ws, db', log')
             else
               (case write_local write ws zone of
                  Inl err \<Rightarrow> Inl err
                | Inr ws' \<Rightarrow> local_loop toZone write pl es (ws', db', log'))))"

text \<open>
  The merge phase: for every name of the chain set, the inner loop over its records
  (collecting the record sets of glue targets), then the glue.
\<close>

fun merge_rrs ::
  "callback \<Rightarrow> (string \<times> owner) list \<Rightarrow> rr list
     \<Rightarrow> (writer \<times> message list) \<times> string list \<times> rr list list
     \<Rightarrow> error + (writer \<times> message list) \<times> string list \<times> rr list list" where
  "merge_rrs write nms [] st = Inr st"
| "merge_rrs write nms (r # rs) (ws, gl, glues) =
     (if rtype r = types_NSEC \<or> rtype r = types_RRSIG then merge_rrs write nms rs (ws, gl, glues)
      else
        (case writeRR write ws r of
           Inl e \<Rightarrow> Inl e
         | Inr ws' \<Rightarrow>
             if rtype r = types_NS \<and> ns (data r) \<in> set gl then
               (case map_of nms (ns (data r)) of
                  None \<Rightarrow> Inl Type_error
                | Some glueData \<Rightarrow>
                    merge_rrs write nms rs
                      (ws', Set_delete gl (ns (data r)), glues @ [rrs glueData]))
             else merge_rrs write nms rs (ws', gl, glues)))"

fun write_glues ::
  "callback \<Rightarrow> writer \<times> message list \<Rightarrow> rr list list \<Rightarrow> error + writer \<times> message list" where
  "write_glues write ws [] = Inr ws"
| "write_glues write ws (g # gs) =
     (case writeAll write ws g of Inl e \<Rightarrow> Inl e | Inr ws' \<Rightarrow> write_glues write ws' gs)"

fun merge_loop ::
  "callback \<Rightarrow> (string \<times> owner) list \<Rightarrow> string list
     \<Rightarrow> (writer \<times> message list) \<times> string list
     \<Rightarrow> error + (writer \<times> message list) \<times> string list" where
  "merge_loop write nms [] st = Inr st"
| "merge_loop write nms (n # rest) (ws, gl) =
     (case map_of nms n of
        None \<Rightarrow> Inl Type_error
      | Some ow \<Rightarrow>
          (case merge_rrs write nms (rrs ow) (ws, gl, []) of
             Inl e \<Rightarrow> Inl e
           | Inr (ws1, gl1, glues) \<Rightarrow>
               (case write_glues write ws1 glues of
                  Inl e \<Rightarrow> Inl e
                | Inr ws2 \<Rightarrow> merge_loop write nms rest (ws2, gl1))))"

text \<open>
  \<^verbatim>\<open>loadMergeZone\<close> and \<^verbatim>\<open>sendAXFR\<close>. The result of \<^verbatim>\<open>sendAXFR\<close> is the message the host
  server writes, the messages handed to the socket before, and the warnings logged.
  \<^verbatim>\<open>loadMergeZone\<close> returns an object or throws, so the test \<^verbatim>\<open>!mergeDB\<close> never holds.
\<close>

definition loadMergeZone ::
  "(byte list \<Rightarrow> message option) \<Rightarrow> (rr list \<Rightarrow> 'k \<Rightarrow> bool) \<Rightarrow> world \<Rightarrow> plugin \<Rightarrow> 'k node
     \<Rightarrow> error + mergeDB" where
  "loadMergeZone decode verifyMessage w pl nd =
     (if disableMerge pl then Inr \<lparr>names = [], glue = [], nsecChain = []\<rparr>
      else
        (case query decode w (axfrClient pl) of
           (Inl e, c, log) \<Rightarrow> Inl e
         | (Inr None, c, log) \<Rightarrow> Inl No_zone_data
         | (Inr (Some dat), c, log) \<Rightarrow> verifyZone verifyMessage AXFRValidator dat (icann_keyMap nd)))"

definition sendAXFR ::
  "(byte list \<Rightarrow> message option) \<Rightarrow> (rr list \<Rightarrow> 'k \<Rightarrow> bool) \<Rightarrow> (byte list \<Rightarrow> string \<Rightarrow> rr list)
     \<Rightarrow> callback \<Rightarrow> world \<Rightarrow> plugin \<Rightarrow> 'k node \<Rightarrow> message \<Rightarrow> rinfo
     \<Rightarrow> error + response \<times> message list \<times> string list" where
  "sendAXFR decode verifyMessage toZone write w pl nd rq ri =
     (if \<not> tcp ri then Inr (Refuse, [], [])
      else if address ri \<notin> set (ipList pl) then Inr (Refuse, [], [])
      else
        (case loadMergeZone decode verifyMessage w pl nd of
           Inl e \<Rightarrow> Inl e
         | Inr mergeDB \<Rightarrow>
             (case writeRR write (MessageWriter rq, []) (toSOA nd) of
                Inl e \<Rightarrow> Inl e
              | Inr ws1 \<Rightarrow>
                  (case local_loop toZone write pl (tree nd)
                          (ws1, mergeDB\<lparr>nsecChain := Set_delete (nsecChain mergeDB) ''.''\<rparr>, []) of
                     Inl e \<Rightarrow> Inl e
                   | Inr (ws2, db2, log) \<Rightarrow>
                       (case merge_loop write (names db2) (nsecChain db2) (ws2, glue db2) of
                          Inl e \<Rightarrow> Inl e
                        | Inr (ws3, gl3) \<Rightarrow>
                            (case flush write ws3 of
                               Inl e \<Rightarrow> Inl e
                             | Inr (w4, sent) \<Rightarrow>
                                 Inr (Reply ((setReply rq)\<lparr>answer := [toSOA nd]\<rparr>), sent, log)))))))"

subsection \<open>Statements about the orchestrator, and more sample data\<close>

definition sample_fromHost :: "string \<Rightarrow> nat \<Rightarrow> server" where
  "sample_fromHost h p = \<lparr>host = h, port = p\<rparr>"

definition sample_options :: options where
  "sample_options =
     \<lparr>opt_servers = Some [''b.root-servers.net'', ''c.root-servers.net'', ''f.root-servers.net''],
      opt_maxAttempts = None, opt_maxTimeout = None, opt_maxMessages = None\<rparr>"

definition sample_world :: world where
  "sample_world =
     \<lparr>new_id = (\<lambda>i. 7), memory = (\<lambda>i j. 0),
      connect = (\<lambda>i s. if host s = ''f.root-servers.net'' then Stream [sample_stream]
                         else Refused (Socket_error ''connect ECONNREFUSED''))\<rparr>"

text \<open>
  What the local phase emits for one entry of the tree: nothing for an entry without
  data and, when the external zone is preferred, nothing for a name of the chain set;
  otherwise the entry's zone records without the signature records.
\<close>

definition local_records ::
  "(byte list \<Rightarrow> string \<Rightarrow> rr list) \<Rightarrow> bool \<Rightarrow> string list \<Rightarrow> namestate \<Rightarrow> rr list" where
  "local_records toZone prefer chain e =
     (if ns_data e = [] \<or> (prefer \<and> util_fqdn (ns_name e) \<in> set chain) then []
      else filter (\<lambda>r. rtype r \<noteq> types_RRSIG) (toZone (ns_data e) (util_fqdn (ns_name e))))"

text \<open>Every record kept under an owner has that owner's name; the origin is no delegation.\<close>

definition grouped :: "(string \<times> owner) list \<Rightarrow> bool" where
  "grouped os = (\<forall>n ow. map_of os n = Some ow \<longrightarrow> (\<forall>r\<in>set (rrs ow). name r = n))"

text \<open>
  Where the records of the merge phase come from: the record set of some owner of the
  merge database whose name is in the chain set or in the glue set.
\<close>

definition from_owner :: "(string \<times> owner) list \<Rightarrow> string set \<Rightarrow> rr \<Rightarrow> bool" where
  "from_owner nms S r = (\<exists>n ow. n \<in> S \<and> map_of nms n = Some ow \<and> r \<in> set (rrs ow))"

definition root_plain :: "validator \<Rightarrow> bool" where
  "root_plain v = (\<forall>ow. map_of (owners v) (origin v) = Some ow \<longrightarrow> \<not> delegation ow)"

text \<open>
  A node with two names in its tree, of which \<^verbatim>\<open>de\<close> is also in the sample zone; the
  external zone arrives as two frames, decoded by a stand-in for \<^verbatim>\<open>Message.decode\<close>.
\<close>

definition sample_toZone :: "byte list \<Rightarrow> string \<Rightarrow> rr list" where
  "sample_toZone d n = [ns_rr n (''ns1.'' @ n), zone_rr n types_RRSIG]"

definition sample_plugin :: "bool \<Rightarrow> plugin" where
  "sample_plugin prefer =
     \<lparr>ipList = [''127.0.0.1''], preferICANN = prefer, disableMerge = False,
      axfrClient = AXFRClient sample_fromHost (Some sample_options)\<rparr>"

definition sample_tree :: "namestate list" where
  "sample_tree = [\<lparr>ns_name = ''hns'', ns_data = [1]\<rparr>, \<lparr>ns_name = ''de'', ns_data = [1]\<rparr>]"

definition sample_node :: "unit node" where
  "sample_node = \<lparr>toSOA = zone_rr ''.'' types_SOA, tree = sample_tree, icann_keyMap = ()\<rparr>"

definition sample_rinfo :: rinfo where
  "sample_rinfo = \<lparr>port_r = 5300, address = ''127.0.0.1'', tcp = True\<rparr>"

definition zone_decode :: "byte list \<Rightarrow> message option" where
  "zone_decode bs =
     (if bs = [1] then Some (hd sample_zone)
      else if bs = [2] then Some (last sample_zone) else None)"

definition zone_world :: world where
  "zone_world =
     \<lparr>new_id = (\<lambda>i. 7), memory = (\<lambda>i j. 0), connect = (\<lambda>i s. Stream [[0, 1, 1, 0, 1, 2]])\<rparr>"

section \<open>Properties\<close>

subsection \<open>Outbound chunk writer\<close>

lemma msg_getSize_pos: "0 < msg_getSize m"
  by (simp add: msg_getSize_def)

lemma writer_inv_new: "writer_inv (MessageWriter r)"
  by (simp add: writer_inv_def MessageWriter_def reset_def setReply_def Let_def)

lemma writer_inv_reset: "question (msg w) = question (req w) \<Longrightarrow> writer_inv (reset w)"
  by (simp add: writer_inv_def reset_def Let_def)

lemma req_reset [simp]: "req (reset w) = req w"
  by (simp add: reset_def Let_def)

lemma answer_reset [simp]: "answer (msg (reset w)) = []"
  by (simp add: reset_def Let_def)

lemma size_reset: "question (msg w) = question (req w) \<Longrightarrow> size_w (reset w) = msg_getSize (setReply (req w))"
  by (simp add: reset_def Let_def msg_getSize_def setReply_def)

lemma flush_inv:
  assumes "writer_inv w" "flush write (w, sent) = Inr (w', sent')"
  shows "writer_inv w' \<and> req w' = req w \<and> answer (msg w') = [] \<and> sent' = sent @ [msg w]"
  using assms msg_getSize_pos [of "msg w"] writer_inv_reset [of w]
  by (auto simp: flush_def writer_inv_def split: if_splits)

lemma writeRR_inv:
  assumes "writer_inv w" "writeRR write (w, sent) r = Inr (w', sent')"
  shows "writer_inv w' \<and> req w' = req w"
proof (cases "getSize r + size_w w > MAX_MESSAGE_SIZE")
  case True
  then obtain w2 where f: "flush write (w\<lparr>written := written w + 1\<rparr>, sent) = Inr (w2, sent')"
    and w': "w' = w2\<lparr>size_w := size_w w2 + getSize r, msg := (msg w2)\<lparr>answer := answer (msg w2) @ [r]\<rparr>\<rparr>"
    using assms(2) by (auto simp: writeRR_def Let_def split: sum.splits)
  have "writer_inv (w\<lparr>written := written w + 1\<rparr>)" using assms(1) by (simp add: writer_inv_def)
  from flush_inv [OF this f] show ?thesis
    by (simp add: w' writer_inv_def msg_getSize_def)
next
  case False
  then show ?thesis using assms by (auto simp: writeRR_def Let_def writer_inv_def msg_getSize_def)
qed

lemma writeRR_sent:
  assumes "writer_inv w" "writeRR write (w, sent) r = Inr (w', sent')"
  shows "if getSize r + size_w w > MAX_MESSAGE_SIZE
         then sent' = sent @ [msg w] \<and> answer (msg w') = [r] \<and> size_w w' = msg_getSize (setReply (req w)) + getSize r
         else sent' = sent \<and> answer (msg w') = answer (msg w) @ [r] \<and> size_w w' = size_w w + getSize r"
proof (cases "getSize r + size_w w > MAX_MESSAGE_SIZE")
  case True
  then obtain w2 where f: "flush write (w\<lparr>written := written w + 1\<rparr>, sent) = Inr (w2, sent')"
    and w': "w' = w2\<lparr>size_w := size_w w2 + getSize r, msg := (msg w2)\<lparr>answer := answer (msg w2) @ [r]\<rparr>\<rparr>"
    using assms(2) by (auto simp: writeRR_def Let_def split: sum.splits)
  have i: "writer_inv (w\<lparr>written := written w + 1\<rparr>)" using assms(1) by (simp add: writer_inv_def)
  have "w2 = reset (w\<lparr>written := written w + 1\<rparr>)"
    using f i msg_getSize_pos [of "msg w"] by (auto simp: flush_def writer_inv_def split: if_splits)
  then have "size_w w2 = msg_getSize (setReply (req w))"
    using i size_reset [of "w\<lparr>written := written w + 1\<rparr>"] by (simp add: writer_inv_def)
  with flush_inv [OF i f] True show ?thesis
    by (simp add: w')
next
  case False
  then show ?thesis using assms by (auto simp: writeRR_def Let_def)
qed

lemma writeRR_emitted:
  assumes "writer_inv w" "writeRR write (w, sent) r = Inr ws'"
  shows "emitted ws' = emitted (w, sent) @ [r]"
  using writeRR_sent [OF assms(1), of "write" sent r "fst ws'" "snd ws'"] assms(2)
  by (auto simp: emitted_def split: if_splits)










text \<open>
  Claim C8: \<^verbatim>\<open>flush\<close> on an empty record buffer should do nothing. The guard of the code
  tests the running size, which is seeded with the size of the empty reply (at least the
  12 header bytes) and is never 0: on a new writer, whose buffer holds no record,
  \<^verbatim>\<open>flush\<close> hands the empty reply to the callback.
\<close>

theorem flush_empty_buffer_writes:
  "answer (msg (MessageWriter rq)) = [] \<and>
   flush (\<lambda>sent m. True) (MessageWriter rq, []) = Inr (MessageWriter rq, [setReply rq])"
  by (simp add: flush_def reset_def MessageWriter_def Let_def msg_getSize_def setReply_def)

text \<open>The other half of C8 holds: a successful \<^verbatim>\<open>flush\<close> hands the message over and resets.\<close>

lemma flush_nonempty:
  assumes "writer_inv w" "write sent (msg w)"
  shows "flush write (w, sent) = Inr (reset w, sent @ [msg w]) \<and>
         answer (msg (reset w)) = [] \<and> size_w (reset w) = msg_getSize (setReply (req w))"
  using assms msg_getSize_pos [of "msg w"] size_reset [of w]
  by (simp add: flush_def writer_inv_def)

subsection \<open>Zone validator\<close>

lemma collect_rr_NSEC3: "rtype r = types_NSEC3 \<Longrightarrow> collect_rr v r = Inl NSEC3_not_supported"
  by (simp add: collect_rr_def Let_def)

lemma collect_rr_error: "collect_rr v r = Inl e \<Longrightarrow> e = NSEC3_not_supported"
  by (auto simp: collect_rr_def Let_def split: if_splits)

lemma collect_rrs_NSEC3:
  "r \<in> set rs \<Longrightarrow> rtype r = types_NSEC3 \<Longrightarrow> collect_rrs v rs = Inl NSEC3_not_supported"
proof (induction rs arbitrary: v)
  case Nil
  then show ?case by simp
next
  case (Cons a rs)
  show ?case
  proof (cases "collect_rr v a")
    case (Inl e)
    then show ?thesis using collect_rr_error [OF Inl] by simp
  next
    case (Inr v')
    then have "a \<noteq> r" using collect_rr_NSEC3 [of a v] Cons.prems(2) by auto
    then show ?thesis using Cons Inr by simp
  qed
qed

lemma collect_rrs_error: "collect_rrs v rs = Inl e \<Longrightarrow> e = NSEC3_not_supported"
  by (induction rs arbitrary: v) (auto split: sum.splits dest: collect_rr_error)

lemma collect_NSEC3:
  "m \<in> set ms \<Longrightarrow> r \<in> set (answer m) \<Longrightarrow> rtype r = types_NSEC3 \<Longrightarrow>
     collect v ms = Inl NSEC3_not_supported"
proof (induction ms arbitrary: v)
  case Nil
  then show ?case by simp
next
  case (Cons a ms)
  show ?case
  proof (cases "collect_rrs v (answer a)")
    case (Inl e)
    then show ?thesis using collect_rrs_error [OF Inl] by simp
  next
    case (Inr v')
    then have "a \<noteq> m" using collect_rrs_NSEC3 [OF Cons.prems(2,3), of v] by auto
    then show ?thesis using Cons Inr by simp
  qed
qed

text \<open>
  Claim C4: when any record of any message handed to \<^verbatim>\<open>verifyZone\<close> has type NSEC3, the
  call fails with \<^verbatim>\<open>bogus: NSEC3 not supported\<close>, whatever the signature check would say of
  the zone and whatever the other records are: the first loop throws at that record (no
  other failure is possible before it), and no signature is checked before the loop ends.
\<close>

theorem verifyZone_rejects_NSEC3:
  assumes "m \<in> set messages" and "r \<in> set (answer m)" and "rtype r = types_NSEC3"
  shows "verifyZone verifyMessage v messages keyMap = Inl NSEC3_not_supported \<and>
         bogus NSEC3_not_supported"
  using collect_NSEC3 [OF assms] by (simp add: verifyZone_def bogus_def)

lemma verifyBitmap_loop_Inr:
  "(verifyBitmap_loop nm ow bm h = Inr b) =
     (list_all (hasType (rrs ow)) bm \<and> b = (h \<or> types_NS \<in> set bm))"
  by (induction bm arbitrary: h) auto

lemma verifyBitmap_Inr:
  "(verifyBitmap nm ow bm = Inr u) =
     (list_all (hasType (rrs ow)) bm \<and> (delegation ow \<longrightarrow> types_NS \<in> set bm))"
proof (cases "list_all (hasType (rrs ow)) bm")
  case True
  then have "verifyBitmap_loop nm ow bm False = Inr (types_NS \<in> set bm)"
    by (simp add: verifyBitmap_loop_Inr)
  then show ?thesis using True by (simp add: verifyBitmap_def)
next
  case False
  then obtain e where "verifyBitmap_loop nm ow bm False = Inl e"
    by (cases "verifyBitmap_loop nm ow bm False") (auto simp: verifyBitmap_loop_Inr)
  then show ?thesis using False by (simp add: verifyBitmap_def)
qed

lemma verifyBitmap_loop_bogus: "verifyBitmap_loop nm ow bm h = Inl e \<Longrightarrow> bogus e"
  by (induction bm arbitrary: h) (auto simp: bogus_def split: if_splits)

lemma verifyBitmap_bogus: "verifyBitmap nm ow bm = Inl e \<Longrightarrow> bogus e"
  by (auto simp: verifyBitmap_def bogus_def split: sum.splits if_splits
      dest: verifyBitmap_loop_bogus)

lemma nsec_nodeE:
  assumes "nsec_node v nm nxt"
  obtains ow r where "map_of (owners v) nm = Some ow"
    and "extractSet (rrs ow) nm [types_NSEC] = [r]"
    and "verifyBitmap nm ow (getTypes (data r)) = Inr ()"
    and "nextDomain (data r) = nxt"
  using assms
  by (auto simp: nsec_node_def verifyBitmap_Inr split: option.splits list.splits)

lemma nsec_loop_closes:
  assumes "nsec_node v nm nxt" and "nxt \<in> set seen"
  shows "nsec_loop v nm seen = (if nxt \<noteq> origin v then Inl Bad_NSEC_chain else Inr seen)"
proof -
  from assms(1) obtain ow r where "map_of (owners v) nm = Some ow"
    and "extractSet (rrs ow) nm [types_NSEC] = [r]"
    and "verifyBitmap nm ow (getTypes (data r)) = Inr ()"
    and "nextDomain (data r) = nxt"
    by (rule nsec_nodeE)
  then show ?thesis using assms(2)
    by (subst nsec_loop.simps) simp
qed

lemma nsec_loop_follows:
  assumes "nsec_node v nm nxt" and "nxt \<notin> set seen"
  shows "nsec_loop v nm seen = nsec_loop v nxt (seen @ [nxt])"
proof -
  from assms(1) obtain ow r where "map_of (owners v) nm = Some ow"
    and "extractSet (rrs ow) nm [types_NSEC] = [r]"
    and "verifyBitmap nm ow (getTypes (data r)) = Inr ()"
    and "nextDomain (data r) = nxt"
    by (rule nsec_nodeE)
  then show ?thesis using assms(2)
    by (subst nsec_loop.simps) (simp add: Set_add_def)
qed

lemma nsec_loop_no_node:
  assumes "\<forall>nxt. \<not> nsec_node v nm nxt"
  shows "\<exists>e. nsec_loop v nm seen = Inl e \<and> bogus e"
proof (cases "map_of (owners v) nm")
  case None
  then show ?thesis by (subst nsec_loop.simps) (simp add: bogus_def)
next
  case (Some ow)
  show ?thesis
  proof (cases "\<exists>r. extractSet (rrs ow) nm [types_NSEC] = [r]")
    case False
    then have "nsec_loop v nm seen = Inl (NSEC_must_exist nm)"
      using Some by (subst nsec_loop.simps) (auto split: list.splits)
    then show ?thesis by (simp add: bogus_def)
  next
    case True
    then obtain r where r: "extractSet (rrs ow) nm [types_NSEC] = [r]" by blast
    have "\<not> nsec_node v nm (nextDomain (data r))" using assms by blast
    then have "verifyBitmap nm ow (getTypes (data r)) \<noteq> Inr ()"
      using Some r by (simp add: nsec_node_def verifyBitmap_Inr)
    then obtain e where e: "verifyBitmap nm ow (getTypes (data r)) = Inl e"
      by (cases "verifyBitmap nm ow (getTypes (data r))") auto
    then have "nsec_loop v nm seen = Inl e"
      using Some r by (subst nsec_loop.simps) simp
    then show ?thesis using verifyBitmap_bogus [OF e] by simp
  qed
qed

lemma nsec_loop_cases:
  obtains (no_node) e where "nsec_loop v nm seen = Inl e" "bogus e"
  | (closes) nxt where "nsec_node v nm nxt" "nxt \<in> set seen"
      "nsec_loop v nm seen = (if nxt \<noteq> origin v then Inl Bad_NSEC_chain else Inr seen)"
  | (follows) nxt where "nsec_node v nm nxt" "nxt \<notin> set seen"
      "nsec_loop v nm seen = nsec_loop v nxt (seen @ [nxt])"
  using nsec_loop_no_node nsec_loop_closes nsec_loop_follows by meson

text \<open>Soundness of the walk, for any point of the loop.\<close>

lemma nsec_loop_sound:
  "nsec_loop v nm seen = Inr res \<Longrightarrow> distinct seen \<Longrightarrow>
     \<exists>rest. res = seen @ rest \<and> nsec_links v (nm # rest) \<and> distinct res"
proof (induction v nm seen rule: nsec_loop.induct)
  case (1 v nm seen)
  show ?case
  proof (cases rule: nsec_loop_cases [of v nm seen])
    case (no_node e)
    then show ?thesis using "1.prems" by simp
  next
    case (closes nxt)
    then show ?thesis using "1.prems" by (auto split: if_splits)
  next
    case (follows nxt)
    from follows(1) obtain ow r where o: "map_of (owners v) nm = Some ow"
      and r: "extractSet (rrs ow) nm [types_NSEC] = [r]"
      and b: "verifyBitmap nm ow (getTypes (data r)) = Inr ()"
      and n: "nextDomain (data r) = nxt"
      by (rule nsec_nodeE)
    have "\<exists>rest. res = (seen @ [nxt]) @ rest \<and> nsec_links v (nxt # rest) \<and> distinct res"
      using "1.IH" [OF o r refl b] n follows "1.prems" by (simp add: Set_add_def)
    then obtain rest where "res = seen @ nxt # rest" "nsec_links v (nxt # rest)" "distinct res"
      by auto
    then show ?thesis using follows(1) by (intro exI [of _ "nxt # rest"]) simp
  qed
qed

lemma nsec_loop_bogus:
  "nsec_loop v nm seen = Inl e \<Longrightarrow> bogus e"
proof (induction v nm seen rule: nsec_loop.induct)
  case (1 v nm seen)
  show ?case
  proof (cases rule: nsec_loop_cases [of v nm seen])
    case (no_node e')
    then show ?thesis using "1.prems" by simp
  next
    case (closes nxt)
    then show ?thesis using "1.prems" by (auto simp: bogus_def split: if_splits)
  next
    case (follows nxt)
    from follows(1) obtain ow r where o: "map_of (owners v) nm = Some ow"
      and r: "extractSet (rrs ow) nm [types_NSEC] = [r]"
      and b: "verifyBitmap nm ow (getTypes (data r)) = Inr ()"
      and n: "nextDomain (data r) = nxt"
      by (rule nsec_nodeE)
    show ?thesis
      using "1.IH" [OF o r refl b] n follows "1.prems" by (simp add: Set_add_def)
  qed
qed

lemma nsec_loop_complete:
  "nsec_links v (nm # rest) \<Longrightarrow> distinct (seen @ rest) \<Longrightarrow> origin v \<in> set seen \<Longrightarrow>
     nsec_loop v nm seen = Inr (seen @ rest)"
proof (induction rest arbitrary: nm seen)
  case Nil
  then show ?case using nsec_loop_closes [of v nm "origin v" seen] by simp
next
  case (Cons m rest)
  then have node: "nsec_node v nm m" and links: "nsec_links v (m # rest)" by simp_all
  have "m \<notin> set seen" using Cons.prems(2) by auto
  from nsec_loop_follows [OF node this]
  show ?case using Cons.IH [OF links, of "seen @ [m]"] Cons.prems by simp
qed

text \<open>
  Claim C2: the walk of \<^verbatim>\<open>verifyNSEC\<close> succeeds with the set \<open>seen\<close> exactly when \<open>seen\<close>, in
  visiting order, is a closed chain from the origin: each visited owner has exactly one
  NSEC record, each type in its bitmap has a record at the owner, NS is listed when the
  owner is a delegation, and the next-owner pointer that reaches a name already seen
  reaches the origin. The set returned holds every name visited. Every failure of the walk
  is classified bogus.
\<close>

theorem verifyNSEC_walk:
  "(verifyNSEC v = Inr seen \<longleftrightarrow> closed_chain v seen) \<and> (verifyNSEC v = Inl e \<longrightarrow> bogus e)"
proof -
  have 1: "closed_chain v seen" if "verifyNSEC v = Inr seen"
  proof -
    from nsec_loop_sound [of v "origin v" "[origin v]" seen] that
    obtain rest where "seen = origin v # rest" "nsec_links v (origin v # rest)" "distinct seen"
      by (auto simp: verifyNSEC_def Set_add_def)
    then show ?thesis by (simp add: closed_chain_def)
  qed
  have 2: "verifyNSEC v = Inr seen" if "closed_chain v seen"
  proof -
    from that obtain rest where s: "seen = origin v # rest"
      by (cases seen) (auto simp: closed_chain_def)
    with that have "nsec_links v (origin v # rest)" "distinct ([origin v] @ rest)"
      by (simp_all add: closed_chain_def)
    from nsec_loop_complete [OF this] show ?thesis
      by (simp add: verifyNSEC_def Set_add_def s)
  qed
  show ?thesis using 1 2 nsec_loop_bogus by (auto simp: verifyNSEC_def)
qed

lemmas sample_defs = zone_rr_def ns_rr_def nsec_rr_def sample_rr_def sample_zone_def
  sample_owners_def sample_validator_def looping_validator_def

lemma collect_sample: "collect AXFRValidator sample_zone = Inr sample_validator"
  by (simp add: sample_defs AXFRValidator_def collect_rr_def Set_add_def Let_def)

lemma tld_sample: "util_fqdn (util_from ''a.nic.de.'' (- 1)) = ''de.''"
  "util_fqdn (util_from ''a.nic.de.'' 1) = ''nic.de.''"
  "util_fqdn (util_from ''de.'' (- 1)) = ''de.''"
  "util_fqdn (util_from ''de.'' 1) = ''.''"
  "util_fqdn (util_from ''.'' (- 1)) = ''.''"
  by (simp_all add: util_fqdn_def util_from_def util_split_def Let_def)

lemma lower_simps: "lower CHR ''.'' = CHR ''.''" "lower CHR ''d'' = CHR ''d''" "lower CHR ''e'' = CHR ''e''"
  by (simp_all add: lower_def)

lemma closed_sample: "closed_chain sample_validator [''.'', ''de.'']"
  by (simp add: closed_chain_def nsec_node_def extractSet_def util_equal_def hasType_def sample_defs lower_simps)

lemma looping_sample: "nsec_loop looping_validator ''.'' [''.''] = Inl Bad_NSEC_chain"
proof -
  have 1: "nsec_node looping_validator ''.'' ''de.''"
    by (simp add: nsec_node_def extractSet_def util_equal_def hasType_def sample_defs lower_simps)
  have 2: "nsec_node looping_validator ''de.'' ''de.''"
    by (simp add: nsec_node_def extractSet_def util_equal_def hasType_def sample_defs lower_simps)
  have "origin looping_validator = ''.''" by (simp add: looping_validator_def)
  then show ?thesis
    using nsec_loop_follows [OF 1, of "[''.'']"] nsec_loop_closes [OF 2, of "[''.'', ''de.'']"]
    by simp
qed

text \<open>Witness of C2: the sample zone's chain closes, a chain that loops at \<^verbatim>\<open>de.\<close> is refused.\<close>

theorem verifyNSEC_walk_witness:
  "closed_chain sample_validator [''.'', ''de.''] \<and>
   verifyNSEC sample_validator = Inr [''.'', ''de.''] \<and>
   verifyNSEC looping_validator = Inl Bad_NSEC_chain \<and> bogus Bad_NSEC_chain"
proof -
  have l: "verifyNSEC looping_validator = Inl Bad_NSEC_chain"
    using looping_sample by (simp add: verifyNSEC_def Set_add_def looping_validator_def)
  from verifyNSEC_walk [of sample_validator "[''.'', ''de.'']"]
       verifyNSEC_walk [of looping_validator "[]" Bad_NSEC_chain] closed_sample l
  show ?thesis by simp
qed

text \<open>Witness of C4.\<close>

theorem verifyZone_rejects_NSEC3_witness:
  "verifyZone (\<lambda>rs k. True) AXFRValidator
     [\<lparr>id_m = 7, question = [], answer = [zone_rr ''.'' types_SOA, zone_rr ''de.'' types_NSEC3]\<rparr>] () =
   Inl NSEC3_not_supported \<and> bogus NSEC3_not_supported"
proof -
  let ?m = "\<lparr>id_m = 7, question = [], answer = [zone_rr ''.'' types_SOA, zone_rr ''de.'' types_NSEC3]\<rparr>"
  have 1: "?m \<in> set [?m]" by simp
  have 2: "zone_rr ''de.'' types_NSEC3 \<in> set (answer ?m)" by simp
  have 3: "rtype (zone_rr ''de.'' types_NSEC3) = types_NSEC3" by (simp add: sample_defs)
  show ?thesis by (rule verifyZone_rejects_NSEC3 [OF 1 2 3])
qed


lemma filterSet_address: "(filterSet rs [types_A, types_AAAA] = []) = list_all (\<lambda>r. rtype r = types_A \<or> rtype r = types_AAAA) rs"
  by (induction rs) (auto simp: filterSet_def)

lemma verify_owners_step:
  "verify_owners vm k v ((nm, ow) # rest) g =
     (if is_glue v nm ow then verify_owners vm k v rest (Set_add g nm)
      else if \<not> vm (buf_answer ow) k then Inl (Unable_to_validate nm)
      else verify_owners vm k v rest g)"
  unfolding is_glue_def in_delegated_tld_def address_only_def filterSet_address [symmetric]
  by simp

lemma verify_owners_agree:
  "\<forall>(nm, ow)\<in>set es. \<not> is_glue v nm ow \<longrightarrow> vm' (buf_answer ow) k = vm (buf_answer ow) k \<Longrightarrow>
     verify_owners vm' k v es g = verify_owners vm k v es g"
proof (induction es arbitrary: g)
  case Nil
  then show ?case by simp
next
  case (Cons e es)
  obtain nm ow where e: "e = (nm, ow)" by (cases e)
  show ?case using Cons unfolding e verify_owners_step by auto
qed

lemma verify_owners_Inr:
  "verify_owners vm k v es g = Inr g' \<Longrightarrow>
     set g' = set g \<union> {nm. \<exists>ow. (nm, ow) \<in> set es \<and> is_glue v nm ow} \<and>
     (\<forall>(nm, ow)\<in>set es. \<not> is_glue v nm ow \<longrightarrow> vm (buf_answer ow) k)"
proof (induction es arbitrary: g)
  case Nil
  then show ?case by simp
next
  case (Cons e es)
  obtain nm ow where e: "e = (nm, ow)" by (cases e)
  show ?case
  proof (cases "is_glue v nm ow")
    case True
    then have "verify_owners vm k v es (Set_add g nm) = Inr g'"
      using Cons.prems unfolding e verify_owners_step by simp
    from Cons.IH [OF this] True show ?thesis
      unfolding e by (auto simp: Set_add_def split: if_splits)
  next
    case False
    then have "vm (buf_answer ow) k" and "verify_owners vm k v es g = Inr g'"
      using Cons.prems unfolding e verify_owners_step by (auto split: if_splits)
    from Cons.IH [OF this(2)] this(1) False show ?thesis
      unfolding e by auto
  qed
qed

lemma collect_rr_facts:
  assumes "collect_rr v r = Inr v'"
  shows "set (maybeGlue v') = set (maybeGlue v) \<union> (if rtype r = types_NS then {ns (data r)} else {})"
    and "distinct (map fst (owners v)) \<Longrightarrow> distinct (map fst (owners v'))"
    and "origin v' = origin v"
  using assms
  by (auto simp: collect_rr_def Let_def Set_add_def distinct_update split: if_splits)

lemma collect_rrs_facts:
  "collect_rrs v rs = Inr v' \<Longrightarrow>
     set (maybeGlue v') = set (maybeGlue v) \<union> set (map (\<lambda>r. ns (data r)) (filter (\<lambda>r. rtype r = types_NS) rs)) \<and>
     (distinct (map fst (owners v)) \<longrightarrow> distinct (map fst (owners v'))) \<and> origin v' = origin v"
proof (induction rs arbitrary: v)
  case Nil
  then show ?case by simp
next
  case (Cons r rs)
  then obtain v1 where 1: "collect_rr v r = Inr v1" and 2: "collect_rrs v1 rs = Inr v'"
    by (auto split: sum.splits)
  from collect_rr_facts [OF 1] Cons.IH [OF 2] show ?case by auto
qed

lemma collect_facts:
  "collect v ms = Inr v' \<Longrightarrow>
     set (maybeGlue v') = set (maybeGlue v) \<union> set (ns_targets ms) \<and>
     (distinct (map fst (owners v)) \<longrightarrow> distinct (map fst (owners v'))) \<and> origin v' = origin v"
proof (induction ms arbitrary: v)
  case Nil
  then show ?case by (simp add: ns_targets_def)
next
  case (Cons m ms)
  then obtain v1 where 1: "collect_rrs v (answer m) = Inr v1" and 2: "collect v1 ms = Inr v'"
    by (auto split: sum.splits)
  from collect_rrs_facts [OF 1] Cons.IH [OF 2] show ?case
    by (auto simp: ns_targets_def)
qed

text \<open>
  Claim C5, as amended. Let \<^verbatim>\<open>verifyZone\<close> succeed. An owner that was referenced as an NS
  target is classified as glue if and only if the owner named by the last label of its
  name (its top-level domain, not the name without its leftmost label) is a delegation and
  the owner's records are all A or AAAA records. Every owner not classified as glue passed
  the signature check, and the signatures of glue owners are not consulted: a check that
  differs only on the record sets of glue owners gives the same result.
\<close>

theorem verifyZone_glue:
  assumes ok: "verifyZone vm AXFRValidator messages k = Inr db"
    and agree: "\<forall>(nm, ow)\<in>set (names db). nm \<notin> set (glue db) \<longrightarrow>
                  vm' (buf_answer ow) k = vm (buf_answer ow) k"
  shows "verifyZone vm' AXFRValidator messages k = Inr db \<and>
         (\<forall>(nm, ow)\<in>set (names db). nm \<in> set (ns_targets messages) \<longrightarrow>
            (nm \<in> set (glue db)) = (in_delegated_tld (names db) nm \<and> address_only ow)) \<and>
         (\<forall>(nm, ow)\<in>set (names db). nm \<notin> set (glue db) \<longrightarrow> vm (buf_answer ow) k)"
proof -
  from ok obtain v1 chain where c: "collect AXFRValidator messages = Inr v1"
    and g: "verify_owners vm k v1 (owners v1) [] = Inr (glue db)"
    and n: "verifyNSEC v1 = Inr chain"
    and db: "db = \<lparr>names = owners v1, glue = glue db, nsecChain = chain\<rparr>"
    by (auto simp: verifyZone_def split: sum.splits)
  have nm: "names db = owners v1" by (subst db) simp
  from collect_facts [OF c] have mg: "set (maybeGlue v1) = set (ns_targets messages)"
    and dist: "distinct (map fst (owners v1))"
    by (simp_all add: AXFRValidator_def)
  note vo = verify_owners_Inr [OF g]
  have glue_iff: "(nm \<in> set (glue db)) = is_glue v1 nm ow" if "(nm, ow) \<in> set (owners v1)" for nm ow
  proof
    assume "nm \<in> set (glue db)"
    then obtain ow' where "(nm, ow') \<in> set (owners v1)" "is_glue v1 nm ow'"
      using vo by auto
    moreover have "ow' = ow"
      using dist that calculation(1) by (meson eq_key_imp_eq_value)
    ultimately show "is_glue v1 nm ow" by simp
  next
    assume "is_glue v1 nm ow"
    then show "nm \<in> set (glue db)" using vo that by auto
  qed
  have "\<forall>(nm, ow)\<in>set (owners v1). \<not> is_glue v1 nm ow \<longrightarrow>
          vm' (buf_answer ow) k = vm (buf_answer ow) k"
    using agree glue_iff by (auto simp: nm)
  then have "verify_owners vm' k v1 (owners v1) [] = verify_owners vm k v1 (owners v1) []"
    by (rule verify_owners_agree)
  with g have "verify_owners vm' k v1 (owners v1) [] = Inr (glue db)" by simp
  then have 1: "verifyZone vm' AXFRValidator messages k = Inr db"
    using c n db by (simp add: verifyZone_def)
  have 2: "\<forall>(nm, ow)\<in>set (names db). nm \<in> set (ns_targets messages) \<longrightarrow>
            (nm \<in> set (glue db)) = (in_delegated_tld (names db) nm \<and> address_only ow)"
    using glue_iff mg by (auto simp: nm is_glue_def)
  have 3: "\<forall>(nm, ow)\<in>set (names db). nm \<notin> set (glue db) \<longrightarrow> vm (buf_answer ow) k"
    using vo glue_iff by (auto simp: nm)
  from 1 2 3 show ?thesis by simp
qed

lemma verifyZone_sample:
  "verifyZone no_address AXFRValidator sample_zone () = Inr sample_db"
proof -
  have "verify_owners no_address () sample_validator sample_owners [] = Inr [''a.nic.de.'']"
    by (simp add: sample_defs tld_sample filterSet_def buf_answer_def no_address_def Set_add_def)
  moreover have "verifyNSEC sample_validator = Inr [''.'', ''de.'']"
    using closed_sample nsec_loop_complete [of sample_validator "''.''" "[''de.'']" "[''.'']"]
    by (simp add: closed_chain_def verifyNSEC_def Set_add_def sample_validator_def)
  ultimately show ?thesis
    using collect_sample by (simp add: verifyZone_def sample_db_def sample_validator_def)
qed

text \<open>
  Claim C5 as stated fails on the sample zone: \<^verbatim>\<open>a.nic.de.\<close> is an NS target, its name
  without the leftmost label is \<^verbatim>\<open>nic.de.\<close>, which is no owner of the zone and so no
  delegation, and yet \<^verbatim>\<open>verifyZone\<close> classifies it as glue and succeeds although the
  signature check refuses its address record.
\<close>

theorem verifyZone_glue_counterexample:
  "verifyZone no_address AXFRValidator sample_zone () = Inr sample_db \<and>
   ''a.nic.de.'' \<in> set (ns_targets sample_zone) \<and>
   ''a.nic.de.'' \<in> set (glue sample_db) \<and>
   strip_leftmost_label ''a.nic.de.'' = ''nic.de.'' \<and>
   map_of (names sample_db) (strip_leftmost_label ''a.nic.de.'') = None"
  using verifyZone_sample
  by (simp add: sample_db_def strip_leftmost_label_def tld_sample ns_targets_def sample_defs)


text \<open>Witness of C5: a check that accepts everything agrees on the two owners that are no glue.\<close>

theorem verifyZone_glue_witness:
  "verifyZone no_address AXFRValidator sample_zone () = Inr sample_db \<and>
   verifyZone (\<lambda>rs k. True) AXFRValidator sample_zone () = Inr sample_db \<and>
   ''a.nic.de.'' \<in> set (ns_targets sample_zone) \<and>
   ''a.nic.de.'' \<in> set (glue sample_db) \<and>
   in_delegated_tld (names sample_db) ''a.nic.de.'' \<and>
   address_only \<lparr>delegation = False, rrs = [zone_rr ''a.nic.de.'' types_A]\<rparr>"
proof -
  have agree: "\<forall>(nm, ow)\<in>set (names sample_db). nm \<notin> set (glue sample_db) \<longrightarrow>
      (\<lambda>rs k. True) (buf_answer ow) () = no_address (buf_answer ow) ()"
    by (simp add: sample_db_def sample_defs buf_answer_def filterSet_def no_address_def)
  from verifyZone_glue [OF verifyZone_sample agree]
  show ?thesis
    using verifyZone_sample
    by (simp add: sample_db_def sample_defs ns_targets_def in_delegated_tld_def tld_sample
        address_only_def)
qed

subsection \<open>Transfer requester\<close>































lemmas read_eval = read.simps fill_def store_def frame_done_def Let_def readUInt16BE_def
  copy_def slice_def sample_decode_def sample_query_def sample_stream_def sample_msgs_def
  AXFRQuery_def sample_rr_def upt_rec

lemma one_chunk: "feed sample_decode sample_query [sample_stream] = Resolved sample_msgs"
  by (simp add: read_eval)





subsection \<open>Failover of the client\<close>

text \<open>
  Claim C7: a client constructed with three servers, whose attempt ceiling is at least 3
  (it is 6 unless an option lowers it), where the connections to the first and the second
  server fail and the exchange with the third server yields the messages \<open>ms\<close>: \<^verbatim>\<open>query\<close>
  returns \<open>ms\<close>, the cursor stays at the third server, and the log holds exactly two
  failures, the first naming the first server and the second naming the second server.
\<close>

theorem query_failover:
  assumes c: "c = AXFRClient fromHost (Some opts)"
    and srv: "opt_servers opts = Some [h0, h1, h2]"
    and att: "3 \<le> maxAttempts c"
    and f0: "connect w 0 (fromHost h0 53) = Refused e0"
    and f1: "connect w 1 (fromHost h1 53) = Refused e1"
    and ok: "exchange decode (AXFRQuery (memory w 2) (maxMessages_c c)) (new_id w 2)
               (connect w 2 (fromHost h2 53)) = Inr ms"
  shows "query decode w c =
           (Inr (Some ms), c\<lparr>index := 2\<rparr>,
            [(host (fromHost h0 53), port (fromHost h0 53), e0),
             (host (fromHost h1 53), port (fromHost h1 53), e1)])"
proof -
  have s: "servers c = Some [fromHost h0 53, fromHost h1 53, fromHost h2 53]"
    and i: "index c = 0"
    unfolding c using srv
    by (auto simp: AXFRClient_def parseOptions_def Let_def split: option.splits)
  let ?c1 = "c\<lparr>index := 1\<rparr>" and ?c2 = "c\<lparr>index := 2\<rparr>"
  have n0: "nextServer c = Inr (?c1, Some (fromHost h1 53))"
    using s i by (simp add: nextServer_def Let_def)
  have n1: "nextServer ?c1 = Inr (?c2, Some (fromHost h2 53))"
    using s by (simp add: nextServer_def Let_def)
  have e0: "exchange decode (AXFRQuery (memory w 0) (maxMessages_c c)) (new_id w 0)
      (connect w 0 (fromHost h0 53)) = Inl e0"
    using f0 by (simp add: exchange_def)
  have e1: "exchange decode (AXFRQuery (memory w 1) (maxMessages_c c)) (new_id w 1)
      (connect w 1 (fromHost h1 53)) = Inl e1"
    using f1 by (simp add: exchange_def)
  have "query_loop decode w ?c2 (Some (fromHost h2 53)) 2 lg = (Inr (Some ms), ?c2, lg)" for lg
    using att ok by (subst query_loop.simps) simp
  then have l2: "query_loop decode w ?c2 (Some (fromHost h2 53)) (Suc (Suc 0)) lg =
      (Inr (Some ms), ?c2, lg)" for lg
    by (simp only: numeral_2_eq_2)
  have l1: "query_loop decode w ?c1 (Some (fromHost h1 53)) 1 lg =
      (Inr (Some ms), ?c2, lg @ [(host (fromHost h1 53), port (fromHost h1 53), e1)])" for lg
    using att e1 n1 l2 by (subst query_loop.simps) simp
  have l0: "query_loop decode w c (Some (fromHost h0 53)) 0 [] =
      (Inr (Some ms), ?c2, [(host (fromHost h0 53), port (fromHost h0 53), e0),
             (host (fromHost h1 53), port (fromHost h1 53), e1)])"
    using att e0 n0 l1 by (subst query_loop.simps) simp
  show ?thesis
    using s i l0 by (simp add: query_def getServer_def)
qed

text \<open>Witness of C7: the default servers, of which only the third one answers.\<close>

theorem query_failover_witness:
  "query sample_decode sample_world (AXFRClient sample_fromHost (Some sample_options)) =
     (Inr (Some sample_msgs), (AXFRClient sample_fromHost (Some sample_options))\<lparr>index := 2\<rparr>,
      [(''b.root-servers.net'', 53, Socket_error ''connect ECONNREFUSED''),
       (''c.root-servers.net'', 53, Socket_error ''connect ECONNREFUSED'')])"
proof -
  let ?c = "AXFRClient sample_fromHost (Some sample_options)"
  have srv: "opt_servers sample_options =
      Some [''b.root-servers.net'', ''c.root-servers.net'', ''f.root-servers.net'']"
    by (simp add: sample_options_def)
  have att: "3 \<le> maxAttempts ?c"
    by (simp add: AXFRClient_def parseOptions_def sample_options_def)
  have f0: "connect sample_world 0 (sample_fromHost ''b.root-servers.net'' 53) =
      Refused (Socket_error ''connect ECONNREFUSED'')"
    by (simp add: sample_world_def sample_fromHost_def)
  have f1: "connect sample_world 1 (sample_fromHost ''c.root-servers.net'' 53) =
      Refused (Socket_error ''connect ECONNREFUSED'')"
    by (simp add: sample_world_def sample_fromHost_def)
  have ok: "exchange sample_decode (AXFRQuery (memory sample_world 2) (maxMessages_c ?c))
      (new_id sample_world 2) (connect sample_world 2 (sample_fromHost ''f.root-servers.net'' 53)) =
      Inr sample_msgs"
    using one_chunk
    by (simp add: exchange_def sample_world_def sample_fromHost_def sample_query_def
        AXFRClient_def parseOptions_def sample_options_def)
  from query_failover [OF refl srv att f0 f1 ok] show ?thesis
    by (simp add: sample_fromHost_def)
qed

subsection \<open>Transfer orchestrator\<close>

lemma write_local_emitted:
  "writer_inv (fst ws) \<Longrightarrow> write_local write ws zone = Inr ws' \<Longrightarrow>
     emitted ws' = emitted ws @ filter (\<lambda>r. rtype r \<noteq> types_RRSIG) zone \<and> writer_inv (fst ws')"
proof (induction zone arbitrary: ws)
  case Nil
  then show ?case by simp
next
  case (Cons r zone)
  show ?case
  proof (cases "rtype r = types_RRSIG")
    case True
    then show ?thesis using Cons by simp
  next
    case False
    obtain w sent where ws: "ws = (w, sent)" by (cases ws)
    from False Cons.prems(2) obtain ws1 where 1: "writeRR write (w, sent) r = Inr ws1"
      and 2: "write_local write ws1 zone = Inr ws'"
      by (auto simp: ws split: sum.splits)
    have inv: "writer_inv w" using Cons.prems(1) by (simp add: ws)
    obtain w1 sent1 where ws1: "ws1 = (w1, sent1)" by (cases ws1)
    have e1: "emitted ws1 = emitted ws @ [r]" using writeRR_emitted [OF inv 1] by (simp add: ws)
    have i1: "writer_inv (fst ws1)" using writeRR_inv [OF inv 1 [unfolded ws1]] by (simp add: ws1)
    from Cons.IH [OF i1 2] e1 False show ?thesis by simp
  qed
qed

lemma Set_delete_set [simp]: "set (Set_delete xs x) = set xs - {x}"
  by (auto simp: Set_delete_def)

lemma pickRRs_cases:
  "pickRRs pl nm zone db log = (zone', db', log') \<Longrightarrow>
     names db' = names db \<and> glue db' = glue db \<and>
     filter (\<lambda>r. rtype r \<noteq> types_RRSIG) zone' =
       (if preferICANN pl \<and> nm \<in> set (nsecChain db) then []
        else filter (\<lambda>r. rtype r \<noteq> types_RRSIG) zone) \<and>
     (if preferICANN pl then nsecChain db' = nsecChain db
      else set (nsecChain db') = set (nsecChain db) - {nm})"
  by (auto simp: pickRRs_def Let_def split: if_splits)

lemma local_loop_run:
  "local_loop toZone write pl es (ws, db, log) = Inr (ws', db', log') \<Longrightarrow> writer_inv (fst ws) \<Longrightarrow>
     emitted ws' = emitted ws @ concat (map (local_records toZone (preferICANN pl) (nsecChain db)) es) \<and>
     writer_inv (fst ws') \<and> names db' = names db \<and> glue db' = glue db \<and>
     (if preferICANN pl then nsecChain db' = nsecChain db
      else set (nsecChain db') =
             set (nsecChain db) - {util_fqdn (ns_name e) | e. e \<in> set es \<and> ns_data e \<noteq> []})"
proof (induction es arbitrary: ws db log)
  case Nil
  then show ?case by simp
next
  case (Cons e es)
  show ?case
  proof (cases "ns_data e = []")
    case True
    then have "local_loop toZone write pl es (ws, db, log) = Inr (ws', db', log')"
      using Cons.prems(1) by simp
    from Cons.IH [OF this Cons.prems(2)] True show ?thesis
      by (auto simp: local_records_def)
  next
    case False
    let ?nm = "util_fqdn (ns_name e)"
    obtain zone1 db1 log1 where p: "pickRRs pl ?nm (toZone (ns_data e) ?nm) db log = (zone1, db1, log1)"
      by (cases "pickRRs pl ?nm (toZone (ns_data e) ?nm) db log") auto
    note pc = pickRRs_cases [OF p]
    have "\<exists>ws1. local_loop toZone write pl es (ws1, db1, log1) = Inr (ws', db', log') \<and>
        writer_inv (fst ws1) \<and>
        emitted ws1 = emitted ws @ filter (\<lambda>r. rtype r \<noteq> types_RRSIG) zone1"
    proof (cases "zone1 = []")
      case True
      then show ?thesis using Cons.prems False p by (intro exI [of _ ws]) simp
    next
      case nonempty: False
      then obtain ws1 where 1: "write_local write ws zone1 = Inr ws1"
        and 2: "local_loop toZone write pl es (ws1, db1, log1) = Inr (ws', db', log')"
        using Cons.prems(1) False p by (auto split: sum.splits)
      from write_local_emitted [OF Cons.prems(2) 1] 2 show ?thesis
        by (intro exI [of _ ws1]) simp
    qed
    then obtain ws1 where run: "local_loop toZone write pl es (ws1, db1, log1) = Inr (ws', db', log')"
      and inv: "writer_inv (fst ws1)"
      and em: "emitted ws1 = emitted ws @ filter (\<lambda>r. rtype r \<noteq> types_RRSIG) zone1"
      by blast
    note ih = Cons.IH [OF run inv]
    have here: "filter (\<lambda>r. rtype r \<noteq> types_RRSIG) zone1 =
        local_records toZone (preferICANN pl) (nsecChain db) e"
      using pc False by (simp add: local_records_def)
    show ?thesis
    proof (cases "preferICANN pl")
      case True
      then have "nsecChain db1 = nsecChain db" using pc by simp
      then show ?thesis using ih em here pc True by simp
    next
      case local: False
      have same: "map (local_records toZone False (nsecChain db1)) es =
          map (local_records toZone False (nsecChain db)) es"
        by (simp add: local_records_def)
      have "set (nsecChain db') =
          set (nsecChain db) - {?nm} - {util_fqdn (ns_name e) | e. e \<in> set es \<and> ns_data e \<noteq> []}"
        using ih pc local by simp
      also have "\<dots> = set (nsecChain db) -
          {util_fqdn (ns_name x) | x. x \<in> set (e # es) \<and> ns_data x \<noteq> []}"
        using False by auto
      finally show ?thesis using ih em here pc local same by simp
    qed
  qed
qed


lemma writeAll_emitted:
  "writer_inv (fst ws) \<Longrightarrow> writeAll write ws rs = Inr ws' \<Longrightarrow>
     emitted ws' = emitted ws @ rs \<and> writer_inv (fst ws')"
proof (induction rs arbitrary: ws)
  case Nil
  then show ?case by simp
next
  case (Cons r rs)
  obtain w sent where ws: "ws = (w, sent)" by (cases ws)
  from Cons.prems(2) obtain ws1 where 1: "writeRR write (w, sent) r = Inr ws1"
    and 2: "writeAll write ws1 rs = Inr ws'"
    by (auto simp: ws split: sum.splits)
  have inv: "writer_inv w" using Cons.prems(1) by (simp add: ws)
  obtain w1 sent1 where ws1: "ws1 = (w1, sent1)" by (cases ws1)
  have e1: "emitted ws1 = emitted ws @ [r]" using writeRR_emitted [OF inv 1] by (simp add: ws)
  have i1: "writer_inv (fst ws1)" using writeRR_inv [OF inv 1 [unfolded ws1]] by (simp add: ws1)
  from Cons.IH [OF i1 2] e1 show ?case by simp
qed

lemma write_glues_emitted:
  "writer_inv (fst ws) \<Longrightarrow> write_glues write ws gs = Inr ws' \<Longrightarrow>
     emitted ws' = emitted ws @ concat gs \<and> writer_inv (fst ws')"
proof (induction gs arbitrary: ws)
  case Nil
  then show ?case by simp
next
  case (Cons g gs)
  from Cons.prems(2) obtain ws1 where 1: "writeAll write ws g = Inr ws1"
    and 2: "write_glues write ws1 gs = Inr ws'"
    by (auto split: sum.splits)
  note a = writeAll_emitted [OF Cons.prems(1) 1]
  from Cons.IH [OF _ 2] a show ?case by simp
qed

lemma from_owner_mono: "from_owner nms S r \<Longrightarrow> S \<subseteq> T \<Longrightarrow> from_owner nms T r"
  by (auto simp: from_owner_def)

lemma merge_rrs_emitted:
  "merge_rrs write nms rs (ws, gl, glues) = Inr (ws', gl', glues') \<Longrightarrow> writer_inv (fst ws) \<Longrightarrow>
     (\<exists>recs. emitted ws' = emitted ws @ recs \<and> set recs \<subseteq> set rs) \<and> writer_inv (fst ws') \<and>
     set gl' \<subseteq> set gl \<and>
     (\<forall>r\<in>set (concat glues'). r \<in> set (concat glues) \<or> from_owner nms (set gl) r)"
proof (induction rs arbitrary: ws gl glues)
  case Nil
  then show ?case by simp
next
  case (Cons r rs)
  show ?case
  proof (cases "rtype r = types_NSEC \<or> rtype r = types_RRSIG")
    case True
    then have "merge_rrs write nms rs (ws, gl, glues) = Inr (ws', gl', glues')"
      using Cons.prems(1) by simp
    from Cons.IH [OF this Cons.prems(2)] show ?thesis by auto
  next
    case False
    obtain w sent where ws: "ws = (w, sent)" by (cases ws)
    have inv: "writer_inv w" using Cons.prems(2) by (simp add: ws)
    from False Cons.prems(1) obtain ws1 where 1: "writeRR write (w, sent) r = Inr ws1"
      by (auto simp: ws split: sum.splits)
    obtain w1 sent1 where ws1: "ws1 = (w1, sent1)" by (cases ws1)
    have e1: "emitted ws1 = emitted ws @ [r]" using writeRR_emitted [OF inv 1] by (simp add: ws)
    have i1: "writer_inv (fst ws1)" using writeRR_inv [OF inv 1 [unfolded ws1]] by (simp add: ws1)
    show ?thesis
    proof (cases "rtype r = types_NS \<and> ns (data r) \<in> set gl")
      case True
      then obtain glueData where g: "map_of nms (ns (data r)) = Some glueData"
        and 2: "merge_rrs write nms rs (ws1, Set_delete gl (ns (data r)), glues @ [rrs glueData]) =
                  Inr (ws', gl', glues')"
        using False Cons.prems(1) 1 by (auto simp: ws split: option.splits)
      note ih = Cons.IH [OF 2 i1]
      from ih obtain recs where r: "emitted ws' = emitted ws1 @ recs" "set recs \<subseteq> set rs"
        by blast
      have a: "\<exists>recs. emitted ws' = emitted ws @ recs \<and> set recs \<subseteq> set (r # rs)"
        using r e1 by (intro exI [of _ "r # recs"]) auto
      have b: "\<forall>x\<in>set (concat glues'). x \<in> set (concat glues) \<or> from_owner nms (set gl) x"
      proof
        fix x assume "x \<in> set (concat glues')"
        with ih have "x \<in> set (concat (glues @ [rrs glueData])) \<or>
            from_owner nms (set (Set_delete gl (ns (data r)))) x" by blast
        then show "x \<in> set (concat glues) \<or> from_owner nms (set gl) x"
          using g True by (auto simp: from_owner_def)
      qed
      from ih a b show ?thesis by auto
    next
      case noglue: False
      then have 2: "merge_rrs write nms rs (ws1, gl, glues) = Inr (ws', gl', glues')"
        using False Cons.prems(1) 1 by (auto simp: ws)
      note ih = Cons.IH [OF 2 i1]
      from ih obtain recs where r: "emitted ws' = emitted ws1 @ recs" "set recs \<subseteq> set rs"
        by blast
      have a: "\<exists>recs. emitted ws' = emitted ws @ recs \<and> set recs \<subseteq> set (r # rs)"
        using r e1 by (intro exI [of _ "r # recs"]) auto
      from ih a show ?thesis by auto
    qed
  qed
qed

lemma merge_loop_emitted:
  "merge_loop write nms chain (ws, gl) = Inr (ws', gl') \<Longrightarrow> writer_inv (fst ws) \<Longrightarrow>
     (\<exists>recs. emitted ws' = emitted ws @ recs \<and>
        (\<forall>r\<in>set recs. from_owner nms (set chain \<union> set gl) r)) \<and> writer_inv (fst ws')"
proof (induction chain arbitrary: ws gl)
  case Nil
  then show ?case by simp
next
  case (Cons n chain)
  from Cons.prems(1) obtain ow ws1 gl1 glues ws2 where o: "map_of nms n = Some ow"
    and 1: "merge_rrs write nms (rrs ow) (ws, gl, []) = Inr (ws1, gl1, glues)"
    and 2: "write_glues write ws1 glues = Inr ws2"
    and 3: "merge_loop write nms chain (ws2, gl1) = Inr (ws', gl')"
    by (auto split: option.splits sum.splits)
  note m = merge_rrs_emitted [OF 1 Cons.prems(2)]
  from m obtain recs1 where r1: "emitted ws1 = emitted ws @ recs1" "set recs1 \<subseteq> set (rrs ow)"
    by blast
  have i1: "writer_inv (fst ws1)" using m by simp
  note g = write_glues_emitted [OF i1 2]
  have i2: "writer_inv (fst ws2)" using g by simp
  note ih = Cons.IH [OF 3 i2]
  from ih obtain recs3 where r3: "emitted ws' = emitted ws2 @ recs3"
    "\<forall>r\<in>set recs3. from_owner nms (set chain \<union> set gl1) r"
    by blast
  let ?S = "set (n # chain) \<union> set gl"
  have a: "\<forall>r\<in>set recs1. from_owner nms ?S r"
    using r1 o by (auto simp: from_owner_def)
  have b: "\<forall>r\<in>set (concat glues). from_owner nms ?S r"
  proof
    fix r assume "r \<in> set (concat glues)"
    with m have "from_owner nms (set gl) r" by auto
    then show "from_owner nms ?S r" by (rule from_owner_mono) auto
  qed
  have c: "\<forall>r\<in>set recs3. from_owner nms ?S r"
  proof
    fix r assume "r \<in> set recs3"
    with r3 have "from_owner nms (set chain \<union> set gl1) r" by blast
    then show "from_owner nms ?S r" using m by (elim from_owner_mono) auto
  qed
  have "emitted ws' = emitted ws @ (recs1 @ concat glues @ recs3)"
    using r1 g r3 by simp
  moreover have "\<forall>r\<in>set (recs1 @ concat glues @ recs3). from_owner nms ?S r"
    using a b c by auto
  ultimately show ?case using ih by blast
qed

lemma collect_rr_owners:
  assumes "collect_rr v r = Inr v'"
  obtains ow0 ow2 where "owners v' = AList.update (name r) ow2 (owners v)"
    and "origin v' = origin v"
    and "map_of (owners v) (name r) = Some ow0 \<or>
         (map_of (owners v) (name r) = None \<and> ow0 = \<lparr>delegation = False, rrs = []\<rparr>)"
    and "rrs ow2 = rrs ow0 @ [r]"
    and "delegation ow2 = (delegation ow0 \<or> (rtype r = types_NS \<and> name r \<noteq> origin v))"
proof -
  define ow0 where "ow0 = (case map_of (owners v) (name r) of
      None \<Rightarrow> \<lparr>delegation = False, rrs = []\<rparr> | Some ow \<Rightarrow> ow)"
  define ow2 where "ow2 = (if rtype r = types_NS \<and> name r \<noteq> origin v
      then ow0\<lparr>delegation := True\<rparr> else ow0)\<lparr>rrs := rrs ow0 @ [r]\<rparr>"
  have nsec3: "rtype r \<noteq> types_NSEC3"
    using assms by (auto simp: collect_rr_def Let_def split: if_splits)
  have 1: "owners v' = AList.update (name r) ow2 (owners v)"
  proof (cases "rtype r = types_NS")
    case True
    then show ?thesis using assms by (auto simp: collect_rr_def Let_def ow0_def ow2_def)
  next
    case False
    then show ?thesis using assms nsec3 by (auto simp: collect_rr_def Let_def ow0_def ow2_def)
  qed
  have 2: "origin v' = origin v"
    using collect_rr_facts(3) [OF assms] .
  have 3: "map_of (owners v) (name r) = Some ow0 \<or>
         (map_of (owners v) (name r) = None \<and> ow0 = \<lparr>delegation = False, rrs = []\<rparr>)"
    by (cases "map_of (owners v) (name r)") (simp_all add: ow0_def)
  have 4: "rrs ow2 = rrs ow0 @ [r]" by (simp add: ow2_def)
  have 5: "delegation ow2 = (delegation ow0 \<or> (rtype r = types_NS \<and> name r \<noteq> origin v))"
    by (auto simp: ow2_def)
  from that [OF 1 2 3 4 5] show ?thesis .
qed

lemma collect_rr_grouped:
  assumes "collect_rr v r = Inr v'" and "grouped (owners v)" and "root_plain v"
  shows "grouped (owners v') \<and> root_plain v'"
proof -
  from assms(1) obtain ow0 ow2 where v': "owners v' = AList.update (name r) ow2 (owners v)"
    and org: "origin v' = origin v"
    and ow0: "map_of (owners v) (name r) = Some ow0 \<or>
         (map_of (owners v) (name r) = None \<and> ow0 = \<lparr>delegation = False, rrs = []\<rparr>)"
    and rr2: "rrs ow2 = rrs ow0 @ [r]"
    and del2: "delegation ow2 = (delegation ow0 \<or> (rtype r = types_NS \<and> name r \<noteq> origin v))"
    by (rule collect_rr_owners)
  have look: "map_of (owners v') n = (if n = name r then Some ow2 else map_of (owners v) n)" for n
    by (simp add: v' update_conv')
  have old: "\<forall>x\<in>set (rrs ow0). name x = name r"
    using ow0 assms(2) by (auto simp: grouped_def)
  have 1: "grouped (owners v')"
    unfolding grouped_def
  proof (intro allI impI ballI)
    fix n ow x
    assume m: "map_of (owners v') n = Some ow" and x: "x \<in> set (rrs ow)"
    show "name x = n"
    proof (cases "n = name r")
      case True
      then have "ow = ow2" using m look by simp
      then show ?thesis using x rr2 old True by auto
    next
      case False
      then have "map_of (owners v) n = Some ow" using m look by simp
      then show ?thesis using assms(2) x by (auto simp: grouped_def)
    qed
  qed
  have 2: "root_plain v'"
    unfolding root_plain_def
  proof (intro allI impI)
    fix ow
    assume m: "map_of (owners v') (origin v') = Some ow"
    show "\<not> delegation ow"
    proof (cases "origin v = name r")
      case True
      then have "ow = ow2" using m look org by simp
      moreover have "\<not> delegation ow0"
        using ow0 assms(3) True by (auto simp: root_plain_def)
      ultimately show ?thesis using del2 True by simp
    next
      case False
      then have "map_of (owners v) (origin v) = Some ow" using m look org by simp
      then show ?thesis using assms(3) by (simp add: root_plain_def)
    qed
  qed
  from 1 2 show ?thesis by simp
qed

lemma collect_rrs_grouped:
  "collect_rrs v rs = Inr v' \<Longrightarrow> grouped (owners v) \<Longrightarrow> root_plain v \<Longrightarrow>
     grouped (owners v') \<and> root_plain v'"
proof (induction rs arbitrary: v)
  case Nil
  then show ?case by simp
next
  case (Cons r rs)
  then obtain v1 where 1: "collect_rr v r = Inr v1" and 2: "collect_rrs v1 rs = Inr v'"
    by (auto split: sum.splits)
  from collect_rr_grouped [OF 1 Cons.prems(2,3)] Cons.IH [OF 2] show ?case by simp
qed

lemma collect_grouped:
  "collect v ms = Inr v' \<Longrightarrow> grouped (owners v) \<Longrightarrow> root_plain v \<Longrightarrow>
     grouped (owners v') \<and> root_plain v'"
proof (induction ms arbitrary: v)
  case Nil
  then show ?case by simp
next
  case (Cons m ms)
  then obtain v1 where 1: "collect_rrs v (answer m) = Inr v1" and 2: "collect v1 ms = Inr v'"
    by (auto split: sum.splits)
  from collect_rrs_grouped [OF 1 Cons.prems(2,3)] Cons.IH [OF 2] show ?case by simp
qed

lemma root_tld: "util_fqdn (util_from ''.'' (- 1)) = ''.''"
  by (simp add: util_fqdn_def util_from_def util_split_def Let_def)

lemma verifyZone_facts:
  assumes "verifyZone vm AXFRValidator ms k = Inr db"
  shows "grouped (names db) \<and> ''.'' \<notin> set (glue db)"
proof -
  from assms obtain v1 chain where c: "collect AXFRValidator ms = Inr v1"
    and g: "verify_owners vm k v1 (owners v1) [] = Inr (glue db)"
    and db: "db = \<lparr>names = owners v1, glue = glue db, nsecChain = chain\<rparr>"
    by (auto simp: verifyZone_def split: sum.splits)
  have nm: "names db = owners v1" by (subst db) simp
  have "grouped (owners AXFRValidator)" "root_plain AXFRValidator"
    by (simp_all add: grouped_def root_plain_def AXFRValidator_def)
  from collect_grouped [OF c this] have gr: "grouped (owners v1)" and rp: "root_plain v1"
    by simp_all
  have org: "origin v1 = ''.''"
    using collect_facts [OF c] by (simp add: AXFRValidator_def)
  have "\<not> is_glue v1 ''.'' ow" for ow
    using rp org by (auto simp: is_glue_def in_delegated_tld_def root_tld root_plain_def
        split: option.splits)
  then have "''.'' \<notin> set (glue db)"
    using verify_owners_Inr [OF g] by auto
  then show ?thesis using gr nm by simp
qed

lemma loadMergeZone_facts:
  assumes "loadMergeZone decode vm w pl nd = Inr db"
  shows "grouped (names db) \<and> ''.'' \<notin> set (glue db)"
proof (cases "disableMerge pl")
  case True
  then have "db = \<lparr>names = [], glue = [], nsecChain = []\<rparr>"
    using assms by (simp add: loadMergeZone_def)
  then show ?thesis by (simp add: grouped_def)
next
  case False
  then obtain dat where "verifyZone vm AXFRValidator dat (icann_keyMap nd) = Inr db"
    using assms by (auto simp: loadMergeZone_def split: prod.splits sum.splits option.splits)
  then show ?thesis by (rule verifyZone_facts)
qed

lemma emitted_new: "emitted (MessageWriter rq, []) = []"
  by (simp add: emitted_def MessageWriter_def reset_def Let_def)

lemma local_records_source:
  "r \<in> set (local_records toZone prefer chain e) \<Longrightarrow>
     r \<in> set (toZone (ns_data e) (util_fqdn (ns_name e)))"
  by (auto simp: local_records_def split: if_splits)

text \<open>
  Claim C10: \<^verbatim>\<open>sendAXFR\<close> deletes the origin from the chain set before anything is
  written. Whenever a transfer succeeds, the records handed to the socket are the SOA
  record of the node, then records of the local tree, then the records of the merge
  phase, none of which is owned by the origin; the closing message holds the SOA alone.
\<close>

theorem sendAXFR_origin:
  assumes "sendAXFR decode vm toZone write w pl nd rq ri = Inr (Reply res, sent, log)"
  shows "\<exists>loc ext. concat (map answer sent) = toSOA nd # loc @ ext \<and> answer res = [toSOA nd] \<and>
           (\<forall>r\<in>set loc. \<exists>e\<in>set (tree nd). r \<in> set (toZone (ns_data e) (util_fqdn (ns_name e)))) \<and>
           (\<forall>r\<in>set ext. name r \<noteq> ''.'')"
proof -
  from assms obtain db ws1 ws2 db2 ws3 gl3 w4
    where ld: "loadMergeZone decode vm w pl nd = Inr db"
      and s1: "writeRR write (MessageWriter rq, []) (toSOA nd) = Inr ws1"
      and s2: "local_loop toZone write pl (tree nd)
                 (ws1, db\<lparr>nsecChain := Set_delete (nsecChain db) ''.''\<rparr>, []) = Inr (ws2, db2, log)"
      and s3: "merge_loop write (names db2) (nsecChain db2) (ws2, glue db2) = Inr (ws3, gl3)"
      and s4: "flush write ws3 = Inr (w4, sent)"
      and res: "res = (setReply rq)\<lparr>answer := [toSOA nd]\<rparr>"
    by (auto simp: sendAXFR_def split: if_splits sum.splits prod.splits)
  let ?db1 = "db\<lparr>nsecChain := Set_delete (nsecChain db) ''.''\<rparr>"
  note lf = loadMergeZone_facts [OF ld]
  obtain w1 sent1 where ws1: "ws1 = (w1, sent1)" by (cases ws1)
  have e1: "emitted ws1 = [toSOA nd]"
    using writeRR_emitted [OF writer_inv_new s1] by (simp add: emitted_new)
  have i1: "writer_inv (fst ws1)"
    using writeRR_inv [OF writer_inv_new s1 [unfolded ws1]] by (simp add: ws1)
  note l = local_loop_run [OF s2 i1]
  let ?loc = "concat (map (local_records toZone (preferICANN pl) (nsecChain ?db1)) (tree nd))"
  have e2: "emitted ws2 = toSOA nd # ?loc" using l e1 by simp
  have i2: "writer_inv (fst ws2)" using l by simp
  have nm2: "names db2 = names db" and gl2: "glue db2 = glue db" using l by simp_all
  have ch2: "''.'' \<notin> set (nsecChain db2)"
    using l by (cases "preferICANN pl") auto
  from merge_loop_emitted [OF s3 i2] obtain ext where e3: "emitted ws3 = emitted ws2 @ ext"
    and src: "\<forall>r\<in>set ext. from_owner (names db2) (set (nsecChain db2) \<union> set (glue db2)) r"
    and i3: "writer_inv (fst ws3)"
    by blast
  obtain w3 sent3 where ws3: "ws3 = (w3, sent3)" by (cases ws3)
  have "sent = sent3 @ [msg w3]"
    using flush_inv [OF _ s4 [unfolded ws3]] i3 by (simp add: ws3)
  then have out: "concat (map answer sent) = emitted ws3"
    by (simp add: emitted_def ws3)
  have ext: "\<forall>r\<in>set ext. name r \<noteq> ''.''"
  proof
    fix r assume "r \<in> set ext"
    with src have "from_owner (names db2) (set (nsecChain db2) \<union> set (glue db2)) r"
      by blast
    then obtain n ow where n: "n \<in> set (nsecChain db2) \<union> set (glue db2)"
      and o: "map_of (names db2) n = Some ow" and r: "r \<in> set (rrs ow)"
      unfolding from_owner_def by blast
    have "n \<noteq> ''.''" using n ch2 lf gl2 by auto
    moreover have "name r = n" using lf o r nm2 by (auto simp: grouped_def)
    ultimately show "name r \<noteq> ''.''" by simp
  qed
  have loc: "\<forall>r\<in>set ?loc. \<exists>e\<in>set (tree nd). r \<in> set (toZone (ns_data e) (util_fqdn (ns_name e)))"
    by (auto dest: local_records_source)
  have "concat (map answer sent) = toSOA nd # ?loc @ ext"
    using out e3 e2 by simp
  moreover have "answer res = [toSOA nd]" by (simp add: res)
  ultimately show ?thesis using loc ext by blast
qed

lemma fqdn_samples: "util_fqdn ''hns'' = ''hns.''" "util_fqdn ''de'' = ''de.''"
  by (simp_all add: util_fqdn_def)

lemmas writer_eval = writeRR_def flush_def reset_def MessageWriter_def Let_def msg_getSize_def
  setReply_def sample_req_def emitted_def



lemma query_sample:
  "query zone_decode zone_world (AXFRClient sample_fromHost (Some sample_options)) =
     (Inr (Some sample_zone), AXFRClient sample_fromHost (Some sample_options), [])"
proof -
  have "feed zone_decode ((AXFRQuery (\<lambda>j. 0) 1000)\<lparr>id_q := 7\<rparr>) [[0, 1, 1, 0, 1, 2]] =
      Resolved sample_zone"
    by (simp add: read.simps fill_def store_def frame_done_def Let_def readUInt16BE_def copy_def
        slice_def AXFRQuery_def upt_rec zone_decode_def sample_defs)
  then show ?thesis
    by (simp add: query_def getServer_def query_loop.simps exchange_def AXFRClient_def
        parseOptions_def sample_options_def zone_world_def sample_fromHost_def)
qed

lemma load_sample:
  "loadMergeZone zone_decode no_address zone_world (sample_plugin p) sample_node = Inr sample_db"
  using query_sample verifyZone_sample
  by (simp add: loadMergeZone_def sample_plugin_def sample_node_def)

lemma sendAXFR_sample:
  "\<exists>res sent log. sendAXFR zone_decode no_address sample_toZone (\<lambda>s m. True) zone_world
      (sample_plugin True) sample_node sample_req sample_rinfo = Inr (Reply res, sent, log) \<and>
      concat (map answer sent) =
        [zone_rr ''.'' types_SOA, ns_rr ''hns.'' ''ns1.hns.'', ns_rr ''de.'' ''a.nic.de.'',
         zone_rr ''a.nic.de.'' types_A]"
  by (simp add: sendAXFR_def load_sample sample_rinfo_def)
     (simp add: sample_plugin_def sample_node_def sample_tree_def sample_toZone_def pickRRs_def
      sample_db_def fqdn_samples writer_eval sample_defs Set_delete_def)

text \<open>
  Witness of C10: the external zone is preferred, so the merge phase emits the delegation
  \<^verbatim>\<open>de.\<close> and its glue, and nothing of the root's own records.
\<close>

theorem sendAXFR_origin_witness:
  "(case sendAXFR zone_decode no_address sample_toZone (\<lambda>s m. True) zone_world
          (sample_plugin True) sample_node sample_req sample_rinfo of
      Inl e \<Rightarrow> False
    | Inr (rsp, sent, log) \<Rightarrow>
        concat (map answer sent) =
          [zone_rr ''.'' types_SOA, ns_rr ''hns.'' ''ns1.hns.'', ns_rr ''de.'' ''a.nic.de.'',
           zone_rr ''a.nic.de.'' types_A] \<and>
        (\<exists>loc ext. concat (map answer sent) = toSOA sample_node # loc @ ext \<and>
           (\<forall>r\<in>set loc. \<exists>e\<in>set (tree sample_node).
               r \<in> set (sample_toZone (ns_data e) (util_fqdn (ns_name e)))) \<and>
           (\<forall>r\<in>set ext. name r \<noteq> ''.'')))"
proof -
  from sendAXFR_sample obtain res sent log
    where run: "sendAXFR zone_decode no_address sample_toZone (\<lambda>s m. True) zone_world
      (sample_plugin True) sample_node sample_req sample_rinfo = Inr (Reply res, sent, log)"
      and out: "concat (map answer sent) =
        [zone_rr ''.'' types_SOA, ns_rr ''hns.'' ''ns1.hns.'', ns_rr ''de.'' ''a.nic.de.'',
         zone_rr ''a.nic.de.'' types_A]"
    by blast
  from sendAXFR_origin [OF run] out show ?thesis
    unfolding run by auto
qed

end
